theory Spec2Isabelle
  imports Main "HOL-Library.Word" "HOL-Library.Sublist" "HOL-Library.AList"
begin

section \<open>Strings and paths\<close>

text \<open>
  The scripts handle paths as strings built with \<open>join(dir, name)\<close> from the names that
  \<open>Deno.readDir\<close> yields. A path is modelled as the list of its components, so that
  \<open>join dir name\<close> appends one component. File names are taken to be ASCII, where
  JavaScript's \<open>toLowerCase\<close> and the \<open>i\<close> flag of a regular expression fold exactly the
  letters A to Z.
\<close>

type_synonym bytes = "8 word list"
type_synonym path = "string list"

definition join :: "path \<Rightarrow> string \<Rightarrow> path" where
  "join dir name = dir @ [name]"

definition startsWith :: "string \<Rightarrow> string \<Rightarrow> bool" where
  "startsWith s p = (take (length p) s = p)"

definition endsWith :: "string \<Rightarrow> string \<Rightarrow> bool" where
  "endsWith s p = (length p \<le> length s \<and> drop (length s - length p) s = p)"

definition toLowerChar :: "char \<Rightarrow> char" where
  "toLowerChar c =
     (case map_of (zip ''ABCDEFGHIJKLMNOPQRSTUVWXYZ'' ''abcdefghijklmnopqrstuvwxyz'') c of
        Some l \<Rightarrow> l
      | None \<Rightarrow> c)"

definition toLowerCase :: "string \<Rightarrow> string" where
  "toLowerCase s = map toLowerChar s"

text \<open>
  \<open>extname\<close> of the standard path module, on the last component of a path: the text from
  the last dot on, and the empty string when there is no dot, when the only dot is the
  first character, or when the component is \<open>..\<close>.
\<close>

definition extname_of_name :: "string \<Rightarrow> string" where
  "extname_of_name name =
     (let n = length name;
          k = length (takeWhile (\<lambda>c. c \<noteq> CHR ''.'') (rev name))
      in if k = n then []
         else if n - k - 1 = 0 then []
         else if name = ''..'' then []
         else drop (n - k - 1) name)"

definition extname :: "path \<Rightarrow> string" where
  "extname p = (if p = [] then [] else extname_of_name (last p))"

text \<open>
  \<open>getFileExtension\<close> (the same function in the rename and the transcode script):
  \<open>ext ? ext.slice(1).toLowerCase() : null\<close>. The result \<open>Some []\<close> is the empty
  string that a name ending in a dot gives; the callers test the result for truthiness,
  which \<open>truthy\<close> models.
\<close>

definition getFileExtension :: "path \<Rightarrow> string option" where
  "getFileExtension filePath =
     (let ext = extname filePath in if ext \<noteq> [] then Some (toLowerCase (tl ext)) else None)"

definition truthy :: "string option \<Rightarrow> bool" where
  "truthy e = (case e of None \<Rightarrow> False | Some s \<Rightarrow> s \<noteq> [])"

section \<open>The file system\<close>

text \<open>
  The file system is a store from paths to nodes, kept as an association list whose order
  is the order in which a directory listing yields the entries; a new entry goes to the
  end. Symbolic links and permissions are not modelled. \<open>Deno.readDir\<close> reads the whole
  listing of one directory when it is called, so a listing is a snapshot of that moment.
\<close>

datatype fnode = F bytes | D

type_synonym filesystem = "(path \<times> fnode) list"

datatype error = NotFound | IOError | FfmpegFailed | EmptyOutput | BadResource

definition lookup :: "filesystem \<Rightarrow> path \<Rightarrow> fnode option" where
  "lookup fs p = map_of fs p"

definition is_dir :: "fnode \<Rightarrow> bool" where
  "is_dir n = (case n of D \<Rightarrow> True | F _ \<Rightarrow> False)"

text \<open>\<open>stat(path).size\<close>; a directory reports size 0.\<close>

definition node_size :: "fnode \<Rightarrow> nat" where
  "node_size n = (case n of D \<Rightarrow> 0 | F b \<Rightarrow> length b)"

text \<open>A directory entry as \<open>Deno.DirEntry\<close>: the name and \<open>isDirectory\<close>.\<close>

type_synonym dirent = "string \<times> bool"

definition readDir :: "filesystem \<Rightarrow> path \<Rightarrow> dirent list option" where
  "readDir fs d =
     (if lookup fs d = Some D
      then Some (map (\<lambda>(p, n). (last p, is_dir n))
                  (filter (\<lambda>(p, n). p \<noteq> [] \<and> butlast p = d) fs))
      else None)"

text \<open>Writing a file: the parent must be a directory and the path must not be one.\<close>

definition writeFile :: "filesystem \<Rightarrow> path \<Rightarrow> bytes \<Rightarrow> filesystem option" where
  "writeFile fs p b =
     (if p \<noteq> [] \<and> lookup fs (butlast p) = Some D \<and> lookup fs p \<noteq> Some D
      then Some (AList.update p (F b) fs) else None)"

text \<open>
  \<open>Deno.remove(path, {recursive})\<close>: a missing path raises NotFound, a directory that
  has entries is removed only when \<open>recursive\<close> is set.
\<close>

definition remove :: "filesystem \<Rightarrow> path \<Rightarrow> bool \<Rightarrow> error + filesystem" where
  "remove fs p recursive =
     (case lookup fs p of
        None \<Rightarrow> Inl NotFound
      | Some n \<Rightarrow>
          if \<not> recursive \<and> (\<exists>q \<in> set (map fst fs). strict_prefix p q) then Inl IOError
          else Inr (filter (\<lambda>(q, n). \<not> prefix p q) fs))"

text \<open>\<open>Deno.mkdir(path, {recursive: true})\<close>: creates every missing directory on the way.\<close>

fun mkdir_from :: "filesystem \<Rightarrow> path \<Rightarrow> path \<Rightarrow> filesystem option" where
  "mkdir_from fs d [] = Some fs"
| "mkdir_from fs d (x # xs) =
     (case lookup fs (d @ [x]) of
        Some (F b) \<Rightarrow> None
      | Some D \<Rightarrow> mkdir_from fs (d @ [x]) xs
      | None \<Rightarrow> mkdir_from (fs @ [(d @ [x], D)]) (d @ [x]) xs)"

definition mkdir_recursive :: "filesystem \<Rightarrow> path \<Rightarrow> filesystem option" where
  "mkdir_recursive fs p = mkdir_from fs [] p"

text \<open>\<open>Deno.copyFile(from, to)\<close>: the source must be a file.\<close>

definition copyFile :: "filesystem \<Rightarrow> path \<Rightarrow> path \<Rightarrow> filesystem option" where
  "copyFile fs src dst =
     (case lookup fs src of Some (F b) \<Rightarrow> writeFile fs dst b | _ \<Rightarrow> None)"

section \<open>Effects\<close>

text \<open>
  Every function returns how it ended, the file system it leaves and the effects it
  performed, in order. An effect records the call and what the call answered. Of the
  console output, the lines that report what happens to an item are kept. \<open>Digest p ok\<close>
  is the opening of \<open>p\<close> and the read of its whole content for the fingerprint;
  \<open>Close p ok\<close> is the call of \<open>close\<close> on that file.
\<close>

datatype arg = Lit string | P path

datatype logmsg =
    SkipExists path
  | Compressing path path
  | CompressFailed
  | CompressOk path
  | Deleting path
  | Deleted path
  | NotDeleted path
  | Converting path path
  | ConvertOk path
  | DeletingSource path
  | SourceDeleted path
  | SkipWebm path
  | Scanning path
  | Processing path
  | CopyOk path path
  | CreatedDir path

datatype event =
    ReadDir path
  | Stat path bool
  | StatSize path "nat option"
  | Spawn string "arg list" bool
  | Digest path bool
  | Close path bool
  | CopyFile path path bool
  | Mkdir path bool
  | Remove path bool bool
  | Log logmsg

datatype status = Done | Threw error | OutOfFuel

type_synonym result = "status \<times> filesystem \<times> event list"

definition status_of :: "result \<Rightarrow> status" where
  "status_of r = fst r"

definition fs_of :: "result \<Rightarrow> filesystem" where
  "fs_of r = fst (snd r)"

definition events :: "result \<Rightarrow> event list" where
  "events r = snd (snd r)"

text \<open>
  An external program is a parameter: given the file system, the input path and the
  output path, it answers whether it exited with status zero and what it left at the
  output path, if anything.
\<close>

type_synonym tool = "filesystem \<Rightarrow> path \<Rightarrow> path \<Rightarrow> bool \<times> bytes option"

definition tool_output :: "filesystem \<Rightarrow> path \<Rightarrow> bytes option \<Rightarrow> filesystem" where
  "tool_output fs out w =
     (case w of
        None \<Rightarrow> fs
      | Some b \<Rightarrow> (case writeFile fs out b of None \<Rightarrow> fs | Some fs' \<Rightarrow> fs'))"

text \<open>
  Sequencing. \<open>after\<close> puts effects before those of a result; \<open>andThen\<close> is an awaited
  call followed by the rest of the function: the rest runs on the file system the call
  leaves, and a call that throws ends the function there.
\<close>

definition after :: "event list \<Rightarrow> result \<Rightarrow> result" where
  "after evs r = (status_of r, fs_of r, evs @ events r)"

definition andThen :: "result \<Rightarrow> (filesystem \<Rightarrow> result) \<Rightarrow> result" where
  "andThen r k = (if status_of r = Done then after (events r) (k (fs_of r)) else r)"

section \<open>Transcoding: video to WebM\<close>

definition SUPPORTED_EXTENSIONS :: "string list" where
  "SUPPORTED_EXTENSIONS =
     [''avi'', ''mov'', ''mts'', ''vob'', ''mpg'', ''mpeg'', ''3gp'', ''wmv'']"

definition OUTPUT_EXTENSION :: string where
  "OUTPUT_EXTENSION = ''webm''"

definition CONVERSION_PARAMS :: "string list list" where
  "CONVERSION_PARAMS =
     [[''-c:v'', ''libaom-av1''], [''-c:a'', ''libopus''], [''-crf'', ''33''],
      [''-b:v'', ''0''], [''-b:a'', ''128k''], [''-cpu-used'', ''4''],
      [''-threads'', ''4''], [''-tile-columns'', ''2''], [''-row-mt'', ''1'']]"

definition flattenConversionParams :: "string list" where
  "flattenConversionParams = concat CONVERSION_PARAMS"

text \<open>
  \<open>inputPath.replace(new RegExp(`\\.${inputExt}$`, "i"), `.${OUTPUT_EXTENSION}`)\<close>:
  a dot and the extension at the end of the path, in any case, give way to \<open>.webm\<close>; a
  path that does not end so stays as it is.
\<close>

definition replaceExtension_name :: "string \<Rightarrow> string \<Rightarrow> string" where
  "replaceExtension_name name inputExt =
     (let k = length inputExt + 1 in
      if k \<le> length name \<and>
         toLowerCase (drop (length name - k) name) = toLowerCase (CHR ''.'' # inputExt)
      then take (length name - k) name @ ''.'' @ OUTPUT_EXTENSION
      else name)"

definition replaceExtension :: "path \<Rightarrow> string \<Rightarrow> path" where
  "replaceExtension p inputExt =
     (if p = [] then [] else butlast p @ [replaceExtension_name (last p) inputExt])"

definition fileExists :: "filesystem \<Rightarrow> path \<Rightarrow> bool" where
  "fileExists fs p = (lookup fs p \<noteq> None)"

definition ffmpeg_args :: "path \<Rightarrow> path \<Rightarrow> arg list" where
  "ffmpeg_args inputPath outputPath =
     [Lit ''-i'', P inputPath] @ map Lit flattenConversionParams @ [Lit ''-y'', P outputPath]"

text \<open>The test both \<open>convertVideoFile\<close> and the scan make on a path.\<close>

definition supported :: "path \<Rightarrow> bool" where
  "supported p =
     (let ext = getFileExtension p in truthy ext \<and> the ext \<in> set SUPPORTED_EXTENSIONS)"

definition outputPath_of :: "path \<Rightarrow> path" where
  "outputPath_of inputPath = replaceExtension inputPath (the (getFileExtension inputPath))"

definition convertVideoFile :: "tool \<Rightarrow> filesystem \<Rightarrow> path \<Rightarrow> result" where
  "convertVideoFile ffmpeg fs inputPath =
     (if \<not> supported inputPath then (Done, fs, [])
      else
        let outputPath = outputPath_of inputPath in
        if fileExists fs outputPath
        then (Done, fs, [Stat outputPath True, Log (SkipExists outputPath)])
        else
          let success = fst (ffmpeg fs inputPath outputPath);
              fs1 = tool_output fs outputPath (snd (ffmpeg fs inputPath outputPath));
              evs1 = [Stat outputPath False, Log (Converting inputPath outputPath),
                      Spawn ''ffmpeg'' (ffmpeg_args inputPath outputPath) success]
          in
          if \<not> success then (Threw FfmpegFailed, fs1, evs1)
          else
            (case lookup fs1 outputPath of
               None \<Rightarrow>
                 (Threw NotFound, fs1,
                  evs1 @ [Log (ConvertOk outputPath), StatSize outputPath None])
             | Some n \<Rightarrow>
                 let evs2 = evs1 @ [Log (ConvertOk outputPath),
                                     StatSize outputPath (Some (node_size n))]
                 in
                 if node_size n = 0 then (Threw EmptyOutput, fs1, evs2)
                 else
                   (case remove fs1 inputPath False of
                      Inl e \<Rightarrow>
                        (Threw e, fs1,
                         evs2 @ [Log (DeletingSource inputPath),
                                 Remove inputPath False False])
                    | Inr fs2 \<Rightarrow>
                        (Done, fs2,
                         evs2 @ [Log (DeletingSource inputPath),
                                 Remove inputPath False True,
                                 Log (SourceDeleted inputPath)]))))"

text \<open>
  \<open>scanDirectoryRecursively\<close>. The recursion follows the directories of the file system
  as it is when each one is reached, so it is bounded by fuel: one unit for each level
  of directories. \<open>scanEntries\<close> is the \<open>for await\<close> loop over one listing.
\<close>

fun scanDirectoryRecursively :: "tool \<Rightarrow> nat \<Rightarrow> filesystem \<Rightarrow> path \<Rightarrow> result"
  and scanEntries :: "tool \<Rightarrow> nat \<Rightarrow> filesystem \<Rightarrow> path \<Rightarrow> dirent list \<Rightarrow> result"
where
  "scanDirectoryRecursively ffmpeg 0 fs dirPath = (OutOfFuel, fs, [])"
| "scanDirectoryRecursively ffmpeg (Suc n) fs dirPath =
     (case readDir fs dirPath of
        None \<Rightarrow> (Threw NotFound, fs, [Log (Scanning dirPath), ReadDir dirPath])
      | Some entries \<Rightarrow>
          after [Log (Scanning dirPath), ReadDir dirPath]
            (scanEntries ffmpeg n fs dirPath entries))"
| "scanEntries ffmpeg n fs dirPath [] = (Done, fs, [])"
| "scanEntries ffmpeg n fs dirPath (entry # entries) =
     (if startsWith (fst entry) ''.'' then scanEntries ffmpeg n fs dirPath entries
      else
        let fullPath = join dirPath (fst entry) in
        if snd entry then
          andThen (scanDirectoryRecursively ffmpeg n fs fullPath)
            (\<lambda>fs1. scanEntries ffmpeg n fs1 dirPath entries)
        else if supported fullPath then
          andThen (convertVideoFile ffmpeg fs fullPath)
            (\<lambda>fs1. scanEntries ffmpeg n fs1 dirPath entries)
        else if getFileExtension fullPath = Some OUTPUT_EXTENSION then
          after [Log (SkipWebm fullPath)] (scanEntries ffmpeg n fs dirPath entries)
        else scanEntries ffmpeg n fs dirPath entries)"

section \<open>Archiving: compress and delete\<close>

definition keepItem :: "dirent \<Rightarrow> bool" where
  "keepItem item = (\<not> (endsWith (fst item) ''.ts'' \<or> startsWith (fst item) ''.''))"

definition collectItems :: "dirent list \<Rightarrow> dirent list" where
  "collectItems entries = filter keepItem entries"

definition sevenZip_args :: "path \<Rightarrow> path \<Rightarrow> arg list" where
  "sevenZip_args itemPath outputPath = [Lit ''a'', P outputPath, P itemPath]"

text \<open>\<open>compressItem\<close> returns a boolean; the status \<open>Done\<close> of its result carries it.\<close>

definition compressItem :: "tool \<Rightarrow> filesystem \<Rightarrow> path \<Rightarrow> path \<Rightarrow> bool \<times> filesystem \<times> event list"
  where
  "compressItem sevenZip fs itemPath outputPath =
     (let success = fst (sevenZip fs itemPath outputPath);
          fs1 = tool_output fs outputPath (snd (sevenZip fs itemPath outputPath));
          evs = [Log (Compressing itemPath outputPath),
                 Spawn ''7z'' (sevenZip_args itemPath outputPath) success]
      in if \<not> success then (False, fs1, evs @ [Log CompressFailed])
         else (True, fs1, evs @ [Log (CompressOk outputPath)]))"

definition deleteItem :: "filesystem \<Rightarrow> path \<Rightarrow> bool \<Rightarrow> result" where
  "deleteItem fs itemPath isDirectory =
     (case remove fs itemPath isDirectory of
        Inl e \<Rightarrow> (Threw e, fs, [Log (Deleting itemPath), Remove itemPath isDirectory False])
      | Inr fs' \<Rightarrow>
          (Done, fs', [Log (Deleting itemPath), Remove itemPath isDirectory True,
                       Log (Deleted itemPath)]))"

text \<open>The body of the top-level loop, for one item of the collected list.\<close>

definition processItem :: "tool \<Rightarrow> path \<Rightarrow> filesystem \<Rightarrow> dirent \<Rightarrow> result" where
  "processItem sevenZip currentDir fs item =
     (let itemPath = join currentDir (fst item);
          outputPath = join currentDir (fst item @ ''.7z'')
      in
      if fileExists fs outputPath
      then (Done, fs, [Stat outputPath True, Log (SkipExists outputPath)])
      else
        let c = compressItem sevenZip fs itemPath outputPath;
            compressSuccess = fst c;
            fs1 = fst (snd c);
            evs = Stat outputPath False # snd (snd c)
        in
        if compressSuccess then after evs (deleteItem fs1 itemPath (snd item))
        else (Done, fs1, evs @ [Log (NotDeleted itemPath)]))"

fun processItems :: "tool \<Rightarrow> path \<Rightarrow> filesystem \<Rightarrow> dirent list \<Rightarrow> result" where
  "processItems sevenZip currentDir fs [] = (Done, fs, [])"
| "processItems sevenZip currentDir fs (item # items) =
     andThen (processItem sevenZip currentDir fs item)
       (\<lambda>fs1. processItems sevenZip currentDir fs1 items)"

text \<open>The script from the listing on: collect the items, then process them.\<close>

definition compress_and_delete :: "tool \<Rightarrow> filesystem \<Rightarrow> path \<Rightarrow> result" where
  "compress_and_delete sevenZip fs currentDir =
     (case readDir fs currentDir of
        None \<Rightarrow> (Threw NotFound, fs, [ReadDir currentDir])
      | Some entries \<Rightarrow>
          after [ReadDir currentDir]
            (processItems sevenZip currentDir fs (collectItems entries)))"

section \<open>Renaming: copy under the content hash\<close>

text \<open>
  The fingerprint, BLAKE3 in Base58, is a parameter \<open>H\<close> from the bytes of a file to
  the token.

  \<open>Deno.open\<close> gives a handle on a file. \<open>file.readable\<close> is the stream of its bytes,
  and a stream that has been read to its end closes the file it reads from;
  \<open>file.close()\<close> on a file that is closed already raises \<open>BadResource\<close>.
\<close>

datatype handle = Handle (content: bytes) (is_open: bool)

definition open_file :: "filesystem \<Rightarrow> path \<Rightarrow> error + handle" where
  "open_file fs p =
     (case lookup fs p of
        None \<Rightarrow> Inl NotFound
      | Some D \<Rightarrow> Inl IOError
      | Some (F b) \<Rightarrow> Inr (Handle b True))"

text \<open>\<open>crypto.subtle.digest("BLAKE3", file.readable)\<close> reads the stream to its end.\<close>

definition digest :: "(bytes \<Rightarrow> string) \<Rightarrow> handle \<Rightarrow> string \<times> handle" where
  "digest H file = (H (content file), Handle (content file) False)"

definition close_file :: "handle \<Rightarrow> error + unit" where
  "close_file file = (if is_open file then Inr () else Inl BadResource)"

text \<open>
  \<open>calculateFileHash\<close>: the result, and the effects. The \<open>finally\<close> block runs after
  the \<open>return\<close> of the \<open>try\<close> block has been evaluated; when \<open>file.close()\<close> raises
  there, its exception is what the function ends with.
\<close>

definition calculateFileHash ::
  "(bytes \<Rightarrow> string) \<Rightarrow> filesystem \<Rightarrow> path \<Rightarrow> (error + string) \<times> event list" where
  "calculateFileHash H fs filePath =
     (case open_file fs filePath of
        Inl e \<Rightarrow> (Inl e, [Digest filePath False])
      | Inr file \<Rightarrow>
          let hash = fst (digest H file);
              file' = snd (digest H file)
          in
          (case close_file file' of
             Inl e \<Rightarrow> (Inl e, [Digest filePath True, Close filePath False])
           | Inr u \<Rightarrow> (Inr hash, [Digest filePath True, Close filePath True])))"

definition ensureDirectoryExists :: "filesystem \<Rightarrow> path \<Rightarrow> result" where
  "ensureDirectoryExists fs dirPath =
     (if fileExists fs dirPath then (Done, fs, [Stat dirPath True])
      else
        (case mkdir_recursive fs dirPath of
           None \<Rightarrow> (Threw IOError, fs, [Stat dirPath False, Mkdir dirPath False])
         | Some fs' \<Rightarrow>
             (Done, fs', [Stat dirPath False, Mkdir dirPath True, Log (CreatedDir dirPath)])))"

text \<open>\<open>extension ? `${hash}.${extension}` : hash\<close>\<close>

definition targetFileName :: "string \<Rightarrow> string option \<Rightarrow> string" where
  "targetFileName hash extension =
     (if truthy extension then hash @ ''.'' @ the extension else hash)"

text \<open>
  \<open>copySingleFile\<close>. Its last two steps, the copy and the removal of the source in move
  mode, are \<open>copyThenMove\<close>; \<open>targetPath_of\<close> is the target path it builds from the
  fingerprint and the extension.
\<close>

definition targetPath_of :: "string \<Rightarrow> path \<Rightarrow> path \<Rightarrow> path" where
  "targetPath_of hash sourceFile targetDir =
     join targetDir (targetFileName hash (getFileExtension sourceFile))"

definition copyThenMove :: "filesystem \<Rightarrow> path \<Rightarrow> path \<Rightarrow> bool \<Rightarrow> result" where
  "copyThenMove fs sourceFile targetPath moveAfterCopy =
     (case copyFile fs sourceFile targetPath of
        None \<Rightarrow> (Threw IOError, fs, [CopyFile sourceFile targetPath False])
      | Some fs2 \<Rightarrow>
          after [CopyFile sourceFile targetPath True, Log (CopyOk sourceFile targetPath)]
            (if moveAfterCopy then
               (case remove fs2 sourceFile False of
                  Inl e \<Rightarrow> (Threw e, fs2, [Remove sourceFile False False])
                | Inr fs3 \<Rightarrow>
                    (Done, fs3, [Remove sourceFile False True,
                                 Log (SourceDeleted sourceFile)]))
             else (Done, fs2, [])))"

definition copySingleFile ::
  "(bytes \<Rightarrow> string) \<Rightarrow> filesystem \<Rightarrow> path \<Rightarrow> path \<Rightarrow> bool \<Rightarrow> result" where
  "copySingleFile H fs sourceFile targetDir moveAfterCopy =
     (let evs0 = Log (Processing sourceFile) # snd (calculateFileHash H fs sourceFile) in
      case fst (calculateFileHash H fs sourceFile) of
        Inl e \<Rightarrow> (Threw e, fs, evs0)
      | Inr hash \<Rightarrow>
          let targetPath = targetPath_of hash sourceFile targetDir in
          if fileExists fs targetPath
          then (Done, fs, evs0 @ [Stat targetPath True, Log (SkipExists targetPath)])
          else
            after (evs0 @ [Stat targetPath False])
              (andThen (ensureDirectoryExists fs targetDir)
                 (\<lambda>fs1. copyThenMove fs1 sourceFile targetPath moveAfterCopy)))"

fun scanAndCopyFiles ::
    "(bytes \<Rightarrow> string) \<Rightarrow> nat \<Rightarrow> filesystem \<Rightarrow> path \<Rightarrow> path \<Rightarrow> string list \<Rightarrow> bool \<Rightarrow> result"
  and copyEntries ::
    "(bytes \<Rightarrow> string) \<Rightarrow> nat \<Rightarrow> filesystem \<Rightarrow> path \<Rightarrow> path \<Rightarrow> string list \<Rightarrow> bool \<Rightarrow>
       dirent list \<Rightarrow> result"
where
  "scanAndCopyFiles H 0 fs dirPath targetPath extensions moveAfterCopy = (OutOfFuel, fs, [])"
| "scanAndCopyFiles H (Suc n) fs dirPath targetPath extensions moveAfterCopy =
     (case readDir fs dirPath of
        None \<Rightarrow> (Threw NotFound, fs, [ReadDir dirPath])
      | Some entries \<Rightarrow>
          after [ReadDir dirPath]
            (copyEntries H n fs dirPath targetPath extensions moveAfterCopy entries))"
| "copyEntries H n fs dirPath targetPath extensions moveAfterCopy [] = (Done, fs, [])"
| "copyEntries H n fs dirPath targetPath extensions moveAfterCopy (entry # entries) =
     (if startsWith (fst entry) ''.''
      then copyEntries H n fs dirPath targetPath extensions moveAfterCopy entries
      else
        let fullPath = join dirPath (fst entry) in
        if snd entry then
          andThen (scanAndCopyFiles H n fs fullPath targetPath extensions moveAfterCopy)
            (\<lambda>fs1. copyEntries H n fs1 dirPath targetPath extensions moveAfterCopy entries)
        else
          let ext = getFileExtension fullPath in
          if \<not> truthy ext \<or> the ext \<notin> set extensions
          then copyEntries H n fs dirPath targetPath extensions moveAfterCopy entries
          else
            andThen (copySingleFile H fs fullPath targetPath moveAfterCopy)
              (\<lambda>fs1. copyEntries H n fs1 dirPath targetPath extensions moveAfterCopy entries))"

text \<open>The configuration constants of the script, as the repository sets them.\<close>

definition SOURCE_PATH :: path where
  "SOURCE_PATH = [''source'']"

definition TARGET_PATH :: path where
  "TARGET_PATH = [''target'']"

definition EXTENSIONS :: "string list" where
  "EXTENSIONS = [''mp4'', ''webm'', ''m4v'']"

definition MOVE_AFTER_COPY :: bool where
  "MOVE_AFTER_COPY = False"

text \<open>The script: the target directory is made sure of first, then the source is scanned.\<close>

definition file_copy_and_rename ::
  "(bytes \<Rightarrow> string) \<Rightarrow> nat \<Rightarrow> filesystem \<Rightarrow> path \<Rightarrow> path \<Rightarrow> string list \<Rightarrow> bool \<Rightarrow> result"
  where
  "file_copy_and_rename H n fs sourcePath targetPath extensions moveAfterCopy =
     andThen (ensureDirectoryExists fs targetPath)
       (\<lambda>fs1. scanAndCopyFiles H n fs1 sourcePath targetPath extensions moveAfterCopy)"

section \<open>Reading the effects\<close>

text \<open>
  For the effects of the archive loop: the artifact an effect writes, and the item an
  effect compresses or removes.
\<close>

definition artifact_of :: "event \<Rightarrow> path option" where
  "artifact_of e =
     (case e of
        Spawn prog args ok \<Rightarrow> (case args of [Lit a, P out, P p] \<Rightarrow> Some out | _ \<Rightarrow> None)
      | _ \<Rightarrow> None)"

definition item_of :: "event \<Rightarrow> path option" where
  "item_of e =
     (case e of
        Spawn prog args ok \<Rightarrow> (case args of [Lit a, P out, P p] \<Rightarrow> Some p | _ \<Rightarrow> None)
      | Remove p r ok \<Rightarrow> Some p
      | _ \<Rightarrow> None)"

text \<open>
  The paths an effect takes as a source: the directory it lists, the file it reads, copies
  from or removes, and the paths handed to an external program.
\<close>

fun sources_of :: "event \<Rightarrow> path list" where
  "sources_of (ReadDir d) = [d]"
| "sources_of (Digest p ok) = [p]"
| "sources_of (Close p ok) = [p]"
| "sources_of (CopyFile s t ok) = [s]"
| "sources_of (Remove p r ok) = [p]"
| "sources_of (Spawn prog args ok) = concat (map (\<lambda>a. case a of P p \<Rightarrow> [p] | Lit s \<Rightarrow> []) args)"
| "sources_of (Stat p x) = []"
| "sources_of (StatSize p x) = []"
| "sources_of (Mkdir p ok) = []"
| "sources_of (Log m) = []"

text \<open>\<open>p\<close> lies in the directory \<open>d\<close> or below it, and no component below \<open>d\<close> is hidden.\<close>

definition shown_under :: "path \<Rightarrow> path \<Rightarrow> bool" where
  "shown_under d p = (prefix d p \<and> (\<forall>c \<in> set (drop (length d) p). \<not> startsWith c ''.''))"

text \<open>The test the rename scan makes on a file: it has an extension, and the list holds it.\<close>

definition matching :: "string list \<Rightarrow> path \<Rightarrow> bool" where
  "matching extensions p =
     (truthy (getFileExtension p) \<and> the (getFileExtension p) \<in> set extensions)"

text \<open>An effect that changes the file system or runs an external program.\<close>

fun changes :: "event \<Rightarrow> bool" where
  "changes (Spawn prog args ok) = True"
| "changes (CopyFile s t ok) = True"
| "changes (Mkdir p ok) = True"
| "changes (Remove p r ok) = True"
| "changes e = False"

text \<open>Every file below \<open>d\<close> that the transcode scan would convert has its output already.\<close>

definition converted :: "filesystem \<Rightarrow> path \<Rightarrow> bool" where
  "converted fs d =
     (\<forall>(p, node) \<in> set fs.
        \<not> is_dir node \<and> supported p \<and> shown_under d p \<longrightarrow> fileExists fs (outputPath_of p))"

text \<open>The entries of a listing are nodes of the file system.\<close>

definition listed :: "filesystem \<Rightarrow> path \<Rightarrow> dirent list \<Rightarrow> bool" where
  "listed fs d es = (\<forall>(name, isd) \<in> set es. \<exists>node. (join d name, node) \<in> set fs \<and> is_dir node = isd)"

text \<open>
  A well-formed file system: no path occurs twice, and the parent of every entry is a
  directory.
\<close>

definition tree :: "filesystem \<Rightarrow> bool" where
  "tree fs =
     (distinct (map fst fs) \<and>
      (\<forall>(p, node) \<in> set fs. p \<noteq> [] \<longrightarrow> lookup fs (butlast p) = Some D))"

text \<open>The directory flag of every entry of a listing agrees with the file system.\<close>

definition flags_agree :: "filesystem \<Rightarrow> path \<Rightarrow> dirent list \<Rightarrow> bool" where
  "flags_agree fs d es = (\<forall>(c, isd) \<in> set es. isd = ((join d c, D) \<in> set fs))"

section \<open>Example inputs\<close>

text \<open>Concrete file systems, tools and a fingerprint on which the theorems are run.\<close>

definition H1 :: "bytes \<Rightarrow> string" where
  "H1 b = ''h'' @ replicate (length b) CHR ''1''"

definition toolOk :: tool where
  "toolOk fs i out = (True, Some [7])"

definition fsW :: filesystem where
  "fsW = [([], D), ([''docs''], D), ([''docs.7z''], F [1]), ([''a.mov''], F [1, 2]),
          ([''a.webm''], F [3]), ([''x.mp4''], F [4]), ([''out''], D),
          ([''out'', ''h1.mp4''], F [4])]"

definition toolEmpty :: tool where
  "toolEmpty fs i out = (True, Some [])"

definition fsV :: filesystem where
  "fsV = [([], D), ([''a.mov''], F [1, 2]), ([''b.avi''], F [5])]"

definition fsR :: filesystem where
  "fsR = [([], D), ([''src''], D), ([''src'', ''x.mp4''], F [4]), ([''src'', ''y.mp4''], F [4]),
          ([''out''], D), ([''out'', ''h1.mp4''], F [4])]"

definition fsX :: filesystem where
  "fsX = [([], D), ([''src''], D), ([''src'', ''x.mp4''], F [4]), ([''src'', ''y.webm''], F [4]),
          ([''out''], D)]"

definition fsD :: filesystem where
  "fsD = [([], D), ([''src''], D), ([''src'', ''x.mp4''], F [4]), ([''src'', ''y.mp4''], F [4]),
          ([''out''], D)]"

definition toolNothing :: tool where
  "toolNothing fs i out = (True, None)"

definition fsA :: filesystem where
  "fsA = [([], D), ([''a''], F [1])]"

definition fsE :: filesystem where
  "fsE = [([], D), ([''src''], D), ([''src'', ''e.mp4''], F []), ([''out''], D)]"

definition toolFail :: tool where
  "toolFail fs i out = (False, None)"

definition toolFailA :: tool where
  "toolFailA fs i out = (if i = [''a''] then (False, None) else (True, Some [7]))"

definition fsAB :: filesystem where
  "fsAB = [([], D), ([''a''], F [1]), ([''b''], F [2])]"

definition fsS :: filesystem where
  "fsS = [([], D), ([''sub''], D), ([''sub'', ''c.avi''], F [1]), ([''z.avi''], F [2])]"

definition fsT :: filesystem where
  "fsT = [([], D), ([''a.7z''], F [9]), ([''a''], F [1]), ([''.git''], D), ([''run.ts''], F [3])]"

definition fsH :: filesystem where
  "fsH = [([], D), ([''a.avi''], F [1]), ([''.h''], D), ([''.h'', ''c.avi''], F [2]),
          ([''notes.txt''], F [3]), ([''sub''], D), ([''sub'', ''x.MOV''], F [9])]"

definition fsC :: filesystem where
  "fsC = [([], D), ([''src''], D), ([''src'', ''x.mp4''], F [4]), ([''src'', ''.cache''], D),
          ([''src'', ''.cache'', ''y.mp4''], F [5]), ([''src'', ''n.txt''], F [6]),
          ([''out''], D)]"

definition fsK :: filesystem where
  "fsK = [([], D), ([''docs''], D), ([''docs'', ''.env''], F [1]), ([''docs'', ''run.ts''], F [2]),
          ([''.top''], F [3]), ([''main.ts''], F [4]), ([''.git''], D),
          ([''.git'', ''config''], F [5])]"

definition fsA2 :: filesystem where
  "fsA2 = [([], D), ([''a.7z''], F [7])]"

section \<open>Sequencing lemmas\<close>

lemma status_of_simp [simp]: "status_of (st, fs, evs) = st"
  by (simp add: status_of_def)

lemma fs_of_simp [simp]: "fs_of (st, fs, evs) = fs"
  by (simp add: fs_of_def)

lemma events_simp [simp]: "events (st, fs, evs) = evs"
  by (simp add: events_def)

lemma after_simp [simp]: "after evs (st, fs, evs') = (st, fs, evs @ evs')"
  by (simp add: after_def)

lemma andThen_Done [simp]: "andThen (Done, fs, evs) k = after evs (k fs)"
  by (simp add: andThen_def)

lemma andThen_Threw [simp]: "andThen (Threw e, fs, evs) k = (Threw e, fs, evs)"
  by (simp add: andThen_def)

lemma andThen_OutOfFuel [simp]: "andThen (OutOfFuel, fs, evs) k = (OutOfFuel, fs, evs)"
  by (simp add: andThen_def)

lemma events_after [simp]: "events (after evs r) = evs @ events r"
  by (simp add: after_def)

lemma status_of_after [simp]: "status_of (after evs r) = status_of r"
  by (simp add: after_def)

lemma fs_of_after [simp]: "fs_of (after evs r) = fs_of r"
  by (simp add: after_def)

lemma events_andThen:
  "events (andThen r k) =
     (if status_of r = Done then events r @ events (k (fs_of r)) else events r)"
  by (simp add: andThen_def)

lemma status_of_andThen:
  "status_of (andThen r k) = (if status_of r = Done then status_of (k (fs_of r)) else status_of r)"
  by (simp add: andThen_def)

lemma fs_of_andThen:
  "fs_of (andThen r k) = (if status_of r = Done then fs_of (k (fs_of r)) else fs_of r)"
  by (simp add: andThen_def)

section \<open>File system lemmas\<close>

lemma lookup_update:
  "lookup (AList.update k v fs) q = (if q = k then Some v else lookup fs q)"
  by (simp add: lookup_def update_conv')

lemma lookup_filter_prefix:
  "lookup (filter (\<lambda>(q, n). \<not> prefix p q) fs) q = (if prefix p q then None else lookup fs q)"
  by (induction fs) (auto simp: lookup_def)

lemma lookup_None_iff: "lookup fs q = None \<longleftrightarrow> q \<notin> fst ` set fs"
  by (simp add: lookup_def map_of_eq_None_iff)

lemma lookup_writeFile:
  "writeFile fs p b = Some fs' \<Longrightarrow> lookup fs' q = (if q = p then Some (F b) else lookup fs q)"
  by (auto simp: writeFile_def lookup_update split: if_splits)

lemma lookup_tool_output_other:
  "q \<noteq> out \<Longrightarrow> lookup (tool_output fs out w) q = lookup fs q"
  by (auto simp: tool_output_def lookup_writeFile split: option.splits)

lemma lookup_remove:
  assumes "remove fs p False = Inr fs'"
  shows "lookup fs' q = (if q = p then None else lookup fs q)"
proof -
  from assms have fs': "fs' = filter (\<lambda>(q, n). \<not> prefix p q) fs"
    and nostrict: "\<forall>q \<in> fst ` set fs. \<not> strict_prefix p q"
    by (auto simp: remove_def split: option.splits if_splits)
  show ?thesis
  proof (cases "prefix p q")
    case False
    then show ?thesis by (auto simp: fs' lookup_filter_prefix)
  next
    case True
    show ?thesis
    proof (cases "q = p")
      case True
      then show ?thesis by (simp add: fs' lookup_filter_prefix)
    next
      case False
      with True have "strict_prefix p q" by (simp add: strict_prefix_def)
      with nostrict have "q \<notin> fst ` set fs" by blast
      then have "lookup fs q = None" by (simp add: lookup_None_iff)
      with True False show ?thesis by (simp add: fs' lookup_filter_prefix)
    qed
  qed
qed

section \<open>Lemmas on the rename step\<close>

text \<open>
  The digest reads the stream of the file to its end, so the file is closed when
  \<open>finally\<close> closes it again: \<open>calculateFileHash\<close> ends with the exception of
  \<open>file.close()\<close> for every file that it has read, and with the exception of
  \<open>Deno.open\<close> for a path that cannot be opened. It returns no fingerprint.
\<close>

lemma calculateFileHash_file:
  "lookup fs p = Some (F b) \<Longrightarrow>
   calculateFileHash H fs p = (Inl BadResource, [Digest p True, Close p False])"
  by (simp add: calculateFileHash_def open_file_def digest_def close_file_def)

lemma calculateFileHash_cases:
  "calculateFileHash H fs p = (Inl NotFound, [Digest p False]) \<or>
   calculateFileHash H fs p = (Inl IOError, [Digest p False]) \<or>
   calculateFileHash H fs p = (Inl BadResource, [Digest p True, Close p False])"
  by (auto simp: calculateFileHash_def open_file_def digest_def close_file_def
      split: option.splits fnode.splits)

lemma calculateFileHash_throws: "\<exists>e. fst (calculateFileHash H fs p) = Inl e"
  using calculateFileHash_cases [of H fs p] by auto

text \<open>So \<open>copySingleFile\<close> ends at its first step, and the file system is as it was.\<close>

lemma copySingleFile_throws:
  "\<exists>e. copySingleFile H fs src td mv =
     (Threw e, fs, Log (Processing src) # snd (calculateFileHash H fs src))"
  using calculateFileHash_throws [of H fs src]
  by (auto simp: copySingleFile_def Let_def)

lemma copySingleFile_file:
  "lookup fs src = Some (F b) \<Longrightarrow>
   copySingleFile H fs src td mv =
     (Threw BadResource, fs, [Log (Processing src), Digest src True, Close src False])"
  by (simp add: copySingleFile_def Let_def calculateFileHash_file)

lemma copySingleFile_not_Done: "status_of (copySingleFile H fs src td mv) \<noteq> Done"
  using copySingleFile_throws [of H fs src td mv] by (auto simp: status_of_def)

lemma copySingleFile_fs: "fs_of (copySingleFile H fs src td mv) = fs"
  using copySingleFile_throws [of H fs src td mv] by (auto simp: fs_of_def)

lemma copySingleFile_events:
  "events (copySingleFile H fs src td mv) = [Log (Processing src), Digest src False] \<or>
   events (copySingleFile H fs src td mv) =
     [Log (Processing src), Digest src True, Close src False]"
  using copySingleFile_throws [of H fs src td mv] calculateFileHash_cases [of H fs src]
  by (auto simp: events_def)

lemma copySingleFile_sources:
  assumes "e \<in> set (events (copySingleFile H fs src td mv))" and "p \<in> set (sources_of e)"
  shows "p = src"
  using assms copySingleFile_events [of H fs src td mv] by auto

lemma copySingleFile_quiet:
  "e \<in> set (events (copySingleFile H fs src td mv)) \<Longrightarrow> \<not> changes e"
  using copySingleFile_events [of H fs src td mv] by auto

section \<open>Lemmas on the archive variant\<close>

lemma compressItem_simps:
  "fst (compressItem z fs p out) = fst (z fs p out)"
  "fst (snd (compressItem z fs p out)) = tool_output fs out (snd (z fs p out))"
  "snd (snd (compressItem z fs p out)) =
     [Log (Compressing p out), Spawn ''7z'' (sevenZip_args p out) (fst (z fs p out)),
      (if fst (z fs p out) then Log (CompressOk out) else Log CompressFailed)]"
  by (simp_all add: compressItem_def Let_def)

lemma deleteItem_events:
  "events (deleteItem fs p r) =
     [Log (Deleting p), Remove p r (status_of (deleteItem fs p r) = Done)]
     @ (if status_of (deleteItem fs p r) = Done then [Log (Deleted p)] else [])"
  by (simp add: deleteItem_def split: sum.splits)

lemma processItem_new:
  assumes "\<not> fileExists fs (join cwd (fst item @ ''.7z''))"
  shows "processItem z cwd fs item =
     (let p = join cwd (fst item); out = join cwd (fst item @ ''.7z'');
          fs1 = tool_output fs out (snd (z fs p out))
      in if fst (z fs p out)
         then after [Stat out False, Log (Compressing p out),
                     Spawn ''7z'' (sevenZip_args p out) True, Log (CompressOk out)]
                (deleteItem fs1 p (snd item))
         else (Done, fs1, [Stat out False, Log (Compressing p out),
                           Spawn ''7z'' (sevenZip_args p out) False, Log CompressFailed,
                           Log (NotDeleted p)]))"
  using assms by (simp add: processItem_def Let_def compressItem_simps)

lemma processItem_skip:
  assumes "fileExists fs (join cwd (fst item @ ''.7z''))"
  shows "processItem z cwd fs item =
     (Done, fs, [Stat (join cwd (fst item @ ''.7z'')) True,
                 Log (SkipExists (join cwd (fst item @ ''.7z'')))])"
  using assms by (simp add: processItem_def Let_def)

lemma processItem_Remove_iff:
  "(\<exists>r ok. Remove q r ok \<in> set (events (processItem z cwd fs item))) =
     (q = join cwd (fst item) \<and> \<not> fileExists fs (join cwd (fst item @ ''.7z'')) \<and>
      fst (z fs (join cwd (fst item)) (join cwd (fst item @ ''.7z''))))"
proof (cases "fileExists fs (join cwd (fst item @ ''.7z''))")
  case True
  then show ?thesis by (simp add: processItem_skip)
next
  case False
  then show ?thesis
    by (auto simp: processItem_new Let_def deleteItem_events)
qed

lemma processItem_Remove_order:
  assumes "Remove q r ok \<in> set (events (processItem z cwd fs item))"
  shows "\<exists>post. events (processItem z cwd fs item) =
           [Stat (join cwd (fst item @ ''.7z'')) False,
            Log (Compressing (join cwd (fst item)) (join cwd (fst item @ ''.7z''))),
            Spawn ''7z'' (sevenZip_args (join cwd (fst item)) (join cwd (fst item @ ''.7z''))) True,
            Log (CompressOk (join cwd (fst item @ ''.7z''))),
            Log (Deleting (join cwd (fst item))),
            Remove (join cwd (fst item)) (snd item) ok] @ post"
proof (cases "fileExists fs (join cwd (fst item @ ''.7z''))")
  case True
  with assms show ?thesis by (simp add: processItem_skip)
next
  case False
  with assms show ?thesis
    by (auto simp: processItem_new Let_def deleteItem_events split: if_splits)
qed

lemma processItems_failed_item:
  assumes "\<not> fileExists fs (join cwd (fst item @ ''.7z''))"
    and "\<not> fst (z fs (join cwd (fst item)) (join cwd (fst item @ ''.7z'')))"
  shows "processItems z cwd fs (item # items) =
      after [Stat (join cwd (fst item @ ''.7z'')) False,
             Log (Compressing (join cwd (fst item)) (join cwd (fst item @ ''.7z''))),
             Spawn ''7z'' (sevenZip_args (join cwd (fst item)) (join cwd (fst item @ ''.7z'')))
               False,
             Log CompressFailed, Log (NotDeleted (join cwd (fst item)))]
        (processItems z cwd
           (tool_output fs (join cwd (fst item @ ''.7z''))
              (snd (z fs (join cwd (fst item)) (join cwd (fst item @ ''.7z'')))))
           items)"
  using assms by (simp add: processItem_new Let_def)

lemma archive_source_untouched:
  "lookup (tool_output fs (join cwd (name @ ''.7z'')) w) (join cwd name) = lookup fs (join cwd name)"
  by (rule lookup_tool_output_other) (simp add: join_def)

section \<open>Lemmas on the transcode variant\<close>

lemma convertVideoFile_Remove_iff:
  "(\<exists>r ok. Remove q r ok \<in> set (events (convertVideoFile f fs inp))) =
     (q = inp \<and> supported inp \<and> \<not> fileExists fs (outputPath_of inp) \<and>
      fst (f fs inp (outputPath_of inp)) \<and>
      (\<exists>n. lookup (tool_output fs (outputPath_of inp) (snd (f fs inp (outputPath_of inp))))
              (outputPath_of inp) = Some n \<and> 0 < node_size n))"
  by (auto simp: convertVideoFile_def Let_def split: option.splits sum.splits)

lemma convertVideoFile_Remove_order:
  assumes "Remove q r ok \<in> set (events (convertVideoFile f fs inp))"
  shows "\<exists>n post. 0 < n \<and> events (convertVideoFile f fs inp) =
           [Stat (outputPath_of inp) False, Log (Converting inp (outputPath_of inp)),
            Spawn ''ffmpeg'' (ffmpeg_args inp (outputPath_of inp)) True,
            Log (ConvertOk (outputPath_of inp)), StatSize (outputPath_of inp) (Some n),
            Log (DeletingSource inp), Remove inp False ok] @ post"
  using assms
  by (auto simp: convertVideoFile_def Let_def split: option.splits sum.splits if_splits)

lemma convertVideoFile_removed_artifact:
  assumes rm: "Remove q r True \<in> set (events (convertVideoFile f fs inp))"
    and ex: "fileExists fs inp"
  shows "\<exists>n. lookup (fs_of (convertVideoFile f fs inp)) (outputPath_of inp) = Some n \<and>
             0 < node_size n"
proof -
  let ?out = "outputPath_of inp"
  let ?fs1 = "tool_output fs ?out (snd (f fs inp ?out))"
  from rm have c: "supported inp" "\<not> fileExists fs ?out" "fst (f fs inp ?out)"
    and n: "\<exists>n. lookup ?fs1 ?out = Some n \<and> 0 < node_size n"
    using convertVideoFile_Remove_iff [of q f fs inp] by blast+
  from n obtain n where n1: "lookup ?fs1 ?out = Some n" and n2: "0 < node_size n"
    by blast
  from c(2) ex have ne: "?out \<noteq> inp"
    by (auto simp: fileExists_def)
  from rm obtain fs2 where r: "remove ?fs1 inp False = Inr fs2"
    using c n1 n2
    by (auto simp: convertVideoFile_def Let_def split: sum.splits)
  have "fs_of (convertVideoFile f fs inp) = fs2"
    using c n1 n2 r by (simp add: convertVideoFile_def Let_def)
  moreover have "lookup fs2 ?out = lookup ?fs1 ?out"
    using lookup_remove [OF r, of ?out] ne by simp
  ultimately show ?thesis using n1 n2 by simp
qed

lemma convertVideoFile_failed:
  assumes "status_of (convertVideoFile f fs inp) = Threw e"
    and "e = FfmpegFailed \<or> e = EmptyOutput"
  shows "Remove q r ok \<notin> set (events (convertVideoFile f fs inp))"
    and "fs_of (convertVideoFile f fs inp) =
           tool_output fs (outputPath_of inp) (snd (f fs inp (outputPath_of inp)))"
    and "\<not> fileExists fs (outputPath_of inp)"
  using assms
  by (auto simp: convertVideoFile_def Let_def remove_def
      split: option.splits sum.splits if_splits)

lemma convertVideoFile_nonzero_exit:
  assumes "supported inp" and "\<not> fileExists fs (outputPath_of inp)"
    and "\<not> fst (f fs inp (outputPath_of inp))"
  shows "status_of (convertVideoFile f fs inp) = Threw FfmpegFailed"
  using assms by (simp add: convertVideoFile_def Let_def)

section \<open>Lemmas on the archive loop\<close>

lemma append_eq_mid_cases:
  assumes "xs @ ys = pre @ e # post"
  shows "(\<exists>post1. xs = pre @ e # post1 \<and> post = post1 @ ys) \<or>
         (\<exists>pre2. pre = xs @ pre2 \<and> ys = pre2 @ e # post)"
  using assms by (auto simp: append_eq_append_conv2 append_eq_Cons_conv Cons_eq_append_conv)

lemma fileExists_tool_output:
  "fileExists fs q \<Longrightarrow> fileExists (tool_output fs out w) q"
  by (auto simp: fileExists_def tool_output_def lookup_writeFile split: option.splits)

lemma fileExists_remove_other:
  "remove fs p r = Inr fs' \<Longrightarrow> fileExists fs q \<Longrightarrow> \<not> prefix p q \<Longrightarrow> fileExists fs' q"
  by (auto simp: remove_def fileExists_def lookup_filter_prefix split: option.splits if_splits)

lemma prefix_join_join [simp]: "prefix (join cwd m) (join cwd n) \<longleftrightarrow> m = n"
  by (simp add: join_def)

lemma join_eq_iff [simp]: "join cwd m = join cwd n \<longleftrightarrow> m = n"
  by (simp add: join_def)

lemma processItem_keeps_others:
  assumes "fileExists fs (join cwd n)" and "n \<noteq> fst item"
  shows "fileExists (fs_of (processItem z cwd fs item)) (join cwd n)"
proof (cases "fileExists fs (join cwd (fst item @ ''.7z''))")
  case True
  then show ?thesis using assms by (simp add: processItem_skip)
next
  case False
  let ?fs1 = "tool_output fs (join cwd (fst item @ ''.7z''))
      (snd (z fs (join cwd (fst item)) (join cwd (fst item @ ''.7z''))))"
  have e1: "fileExists ?fs1 (join cwd n)"
    using assms(1) by (rule fileExists_tool_output)
  have "fileExists (fs_of (deleteItem ?fs1 (join cwd (fst item)) (snd item))) (join cwd n)"
    using e1 assms(2)
    by (auto simp: deleteItem_def split: sum.splits dest: fileExists_remove_other)
  then show ?thesis
    using False e1 by (simp add: processItem_new Let_def)
qed

lemma processItem_item_of:
  assumes "e \<in> set (events (processItem z cwd fs item))" and "item_of e = Some q"
  shows "q = join cwd (fst item)"
proof (cases "fileExists fs (join cwd (fst item @ ''.7z''))")
  case True
  then show ?thesis using assms by (auto simp: processItem_skip item_of_def)
next
  case False
  then show ?thesis
    using assms
    by (auto simp: processItem_new Let_def deleteItem_events item_of_def sevenZip_args_def
        split: if_splits)
qed

lemma processItem_artifact_of:
  assumes "e \<in> set (events (processItem z cwd fs item))" and "artifact_of e = Some out"
  shows "out = join cwd (fst item @ ''.7z'') \<and> \<not> fileExists fs out"
proof (cases "fileExists fs (join cwd (fst item @ ''.7z''))")
  case True
  then show ?thesis using assms by (auto simp: processItem_skip artifact_of_def)
next
  case False
  then show ?thesis
    using assms
    by (auto simp: processItem_new Let_def deleteItem_events artifact_of_def sevenZip_args_def
        split: if_splits)
qed

lemma processItems_item_of:
  "e \<in> set (events (processItems z cwd fs items)) \<Longrightarrow> item_of e = Some q \<Longrightarrow>
   \<exists>n \<in> fst ` set items. q = join cwd n"
proof (induction items arbitrary: fs)
  case Nil
  then show ?case by simp
next
  case (Cons item items)
  from Cons.prems(1) consider
    (a) "e \<in> set (events (processItem z cwd fs item))"
    | (b) "e \<in> set (events (processItems z cwd (fs_of (processItem z cwd fs item)) items))"
    by (auto simp: events_andThen split: if_splits)
  then show ?case
  proof cases
    case a
    then show ?thesis using processItem_item_of [OF a Cons.prems(2)] by simp
  next
    case b
    then show ?thesis using Cons.IH [OF b Cons.prems(2)] by auto
  qed
qed

lemma processItems_clean:
  assumes "distinct (map fst items)"
    and "\<forall>n \<in> fst ` set items. fileExists fs (join cwd n)"
    and "events (processItems z cwd fs items) = pre @ e # post"
    and "artifact_of e = Some out"
  shows "\<forall>e' \<in> set post. item_of e' \<noteq> Some out"
  using assms
proof (induction items arbitrary: fs pre post)
  case Nil
  then show ?case by simp
next
  case (Cons item items)
  let ?r = "processItem z cwd fs item"
  let ?rest = "processItems z cwd (fs_of ?r) items"
  have inv: "\<forall>n \<in> fst ` set items. fileExists (fs_of ?r) (join cwd n)"
  proof
    fix n assume n: "n \<in> fst ` set items"
    with Cons.prems(1) have "n \<noteq> fst item"
      by (metis distinct.simps(2) list.simps(9) set_map)
    moreover from n Cons.prems(2) have "fileExists fs (join cwd n)" by auto
    ultimately show "fileExists (fs_of ?r) (join cwd n)"
      by (rule processItem_keeps_others [rotated])
  qed
  from Cons.prems(1) have dist: "distinct (map fst items)" by simp
  show ?case
  proof (cases "status_of ?r = Done")
    case True
    then have ev: "events ?r @ events ?rest = pre @ e # post"
      using Cons.prems(3) by (simp add: events_andThen)
    from append_eq_mid_cases [OF ev] show ?thesis
    proof
      assume "\<exists>post1. events ?r = pre @ e # post1 \<and> post = post1 @ events ?rest"
      then obtain post1 where p1: "events ?r = pre @ e # post1"
        and p: "post = post1 @ events ?rest" by blast
      from p1 have ein: "e \<in> set (events ?r)" by simp
      from processItem_artifact_of [OF ein Cons.prems(4)]
      have out: "out = join cwd (fst item @ ''.7z'')" and nex: "\<not> fileExists fs out"
        by blast+
      show ?thesis
      proof
        fix e' assume e': "e' \<in> set post"
        show "item_of e' \<noteq> Some out"
        proof
          assume i: "item_of e' = Some out"
          from e' p consider (x) "e' \<in> set post1" | (y) "e' \<in> set (events ?rest)"
            by auto
          then show False
          proof cases
            case x
            then have "e' \<in> set (events ?r)" using p1 by simp
            from processItem_item_of [OF this i] show False
              using out by simp
          next
            case y
            from processItems_item_of [OF y i] obtain n where
              n: "n \<in> fst ` set items" and o: "out = join cwd n" by blast
            from n Cons.prems(2) have "fileExists fs (join cwd n)" by auto
            with nex o show False by simp
          qed
        qed
      qed
    next
      assume "\<exists>pre2. pre = events ?r @ pre2 \<and> events ?rest = pre2 @ e # post"
      then obtain pre2 where "events ?rest = pre2 @ e # post" by blast
      from Cons.IH [OF dist inv this Cons.prems(4)] show ?thesis .
    qed
  next
    case False
    then have ev: "events ?r = pre @ e # post"
      using Cons.prems(3) by (simp add: events_andThen)
    then have ein: "e \<in> set (events ?r)" by simp
    from processItem_artifact_of [OF ein Cons.prems(4)]
    have out: "out = join cwd (fst item @ ''.7z'')" by simp
    show ?thesis
    proof
      fix e' assume "e' \<in> set post"
      then have "e' \<in> set (events ?r)" using ev by simp
      then show "item_of e' \<noteq> Some out"
        using processItem_item_of [of e' z cwd fs item out] out by auto
    qed
  qed
qed

lemma readDir_names_distinct:
  assumes "distinct (map fst fs)" and "readDir fs d = Some entries"
  shows "distinct (map fst entries)"
proof -
  let ?sel = "filter (\<lambda>(p, n). p \<noteq> [] \<and> butlast p = d) fs"
  from assms(2) have e: "entries = map (\<lambda>(p, n). (last p, is_dir n)) ?sel"
    by (auto simp: readDir_def split: if_splits)
  have m: "map fst entries = map last (map fst ?sel)"
    by (simp add: e case_prod_beta)
  have d1: "distinct (map fst ?sel)"
    using assms(1) by (rule distinct_map_filter)
  have inj: "inj_on last (set (map fst ?sel))"
  proof (rule inj_onI)
    fix p q assume "p \<in> set (map fst ?sel)" "q \<in> set (map fst ?sel)" "last p = last q"
    then have "p \<noteq> []" "q \<noteq> []" "butlast p = butlast q" "last p = last q"
      by auto
    then show "p = q"
      by (metis append_butlast_last_id)
  qed
  have "distinct (map last (map fst ?sel))"
    using d1 inj by (subst distinct_map) blast
  then show ?thesis
    unfolding m .
qed

lemma readDir_entries_exist:
  assumes "readDir fs d = Some entries" and "n \<in> fst ` set entries"
  shows "fileExists fs (join d n)"
proof -
  from assms obtain p node where "(p, node) \<in> set fs" "p \<noteq> []" "butlast p = d" "last p = n"
    by (auto simp: readDir_def split: if_splits)
  then have "(join d n, node) \<in> set fs"
    by (auto simp: join_def)
  then show ?thesis
    by (auto simp: fileExists_def lookup_def map_of_eq_None_iff intro: rev_image_eqI)
qed

section \<open>Lemmas on the transcode scan\<close>

lemma toLowerChar_dot: "toLowerChar c = CHR ''.'' \<longleftrightarrow> c = CHR ''.''"
  by (auto simp: toLowerChar_def split: option.splits if_splits)

lemma toLowerChar_of_dot [simp]: "toLowerChar CHR ''.'' = CHR ''.''"
  by (simp add: toLowerChar_def)

lemma replaceExtension_name_shown:
  assumes "\<not> startsWith name ''.''"
  shows "\<not> startsWith (replaceExtension_name name e) ''.''"
proof (cases "length e + 1 \<le> length name \<and>
    toLowerCase (drop (length name - (length e + 1)) name) = toLowerCase (CHR ''.'' # e)")
  case False
  then show ?thesis using assms by (auto simp: replaceExtension_name_def Let_def)
next
  case True
  let ?m = "length name - (length e + 1)"
  have r: "replaceExtension_name name e = take ?m name @ ''.'' @ OUTPUT_EXTENSION"
    using True by (simp add: replaceExtension_name_def Let_def)
  show ?thesis
  proof (cases "?m = 0")
    case True
    with \<open>length e + 1 \<le> length name \<and> _\<close>
    have "toLowerCase name = toLowerCase (CHR ''.'' # e)" by simp
    then obtain c cs where "name = c # cs" "toLowerChar c = CHR ''.''"
      by (cases name) (auto simp: toLowerCase_def toLowerChar_dot)
    then have "startsWith name ''.''"
      by (simp add: startsWith_def toLowerChar_dot)
    with assms show ?thesis by simp
  next
    case False
    then obtain c cs where n: "name = c # cs" by (cases name) auto
    from False obtain m' where m: "?m = Suc m'" by (cases ?m) auto
    from assms n have c: "c \<noteq> CHR ''.''" by (simp add: startsWith_def)
    have "replaceExtension_name name e = take (Suc m') name @ ''.'' @ OUTPUT_EXTENSION"
      using r m by simp
    then have "replaceExtension_name name e = c # (take m' cs @ ''.'' @ OUTPUT_EXTENSION)"
      using n by simp
    then show ?thesis
      using c by (simp add: startsWith_def)
  qed
qed

lemma outputPath_of_join:
  "outputPath_of (join d name) =
     join d (replaceExtension_name name (the (getFileExtension (join d name))))"
  by (simp add: outputPath_of_def replaceExtension_def join_def)

lemma shown_under_join:
  "\<not> startsWith name ''.'' \<Longrightarrow> shown_under d (join d name)"
  by (simp add: shown_under_def join_def)

lemma shown_under_step:
  assumes "shown_under (join d name) p" and "\<not> startsWith name ''.''"
  shows "shown_under d p"
proof -
  from assms(1) obtain rest where p: "p = d @ name # rest"
    and r: "\<forall>c \<in> set rest. \<not> startsWith c ''.''"
    by (auto simp: shown_under_def join_def prefix_def)
  show ?thesis
    using assms(2) r by (simp add: shown_under_def p)
qed

lemma shown_under_refl: "shown_under d d"
  by (simp add: shown_under_def)

lemma convertVideoFile_sources:
  assumes "e \<in> set (events (convertVideoFile f fs inp))" and "p \<in> set (sources_of e)"
  shows "p = inp \<or> p = outputPath_of inp"
  using assms
  by (auto simp: convertVideoFile_def Let_def ffmpeg_args_def
      split: option.splits sum.splits if_splits)

lemma convertVideoFile_frame:
  assumes "q \<noteq> inp" and "q = outputPath_of inp \<longrightarrow> fileExists fs q"
  shows "lookup (fs_of (convertVideoFile f fs inp)) q = lookup fs q"
proof (cases "supported inp \<and> \<not> fileExists fs (outputPath_of inp)")
  case False
  then show ?thesis by (auto simp: convertVideoFile_def Let_def)
next
  case True
  with assms(2) have ne: "q \<noteq> outputPath_of inp" by auto
  let ?fs1 = "tool_output fs (outputPath_of inp) (snd (f fs inp (outputPath_of inp)))"
  have l1: "lookup ?fs1 q = lookup fs q"
    using ne by (rule lookup_tool_output_other)
  have "fs_of (convertVideoFile f fs inp) = ?fs1 \<or>
        (\<exists>fs2. remove ?fs1 inp False = Inr fs2 \<and> fs_of (convertVideoFile f fs inp) = fs2)"
    using True by (auto simp: convertVideoFile_def Let_def split: option.splits sum.splits)
  then show ?thesis
  proof
    assume "fs_of (convertVideoFile f fs inp) = ?fs1"
    then show ?thesis using l1 by simp
  next
    assume "\<exists>fs2. remove ?fs1 inp False = Inr fs2 \<and> fs_of (convertVideoFile f fs inp) = fs2"
    then obtain fs2 where r: "remove ?fs1 inp False = Inr fs2"
      and e: "fs_of (convertVideoFile f fs inp) = fs2" by blast
    show ?thesis
      using lookup_remove [OF r, of q] assms(1) l1 by (simp add: e)
  qed
qed

lemma scan_sources:
  "\<forall>e \<in> set (events (scanDirectoryRecursively f n fs d)). \<forall>p \<in> set (sources_of e). shown_under d p"
  "\<forall>e \<in> set (events (scanEntries f n fs d es)). \<forall>p \<in> set (sources_of e). shown_under d p"
proof (induction f n fs d and f n fs d es rule: scanDirectoryRecursively_scanEntries.induct)
  case (1 ffmpeg fs dirPath)
  then show ?case by simp
next
  case (2 ffmpeg n fs dirPath)
  then show ?case
    by (auto simp: shown_under_refl split: option.splits)
next
  case (3 ffmpeg n fs dirPath)
  then show ?case by simp
next
  case (4 ffmpeg n fs dirPath entry entries)
  show ?case
  proof (cases "startsWith (fst entry) ''.''")
    case True
    with 4 show ?thesis by simp
  next
    case False
    note vis = False
    let ?full = "join dirPath (fst entry)"
    show ?thesis
    proof (cases "snd entry")
      case True
      have sub: "\<forall>e \<in> set (events (scanDirectoryRecursively ffmpeg n fs ?full)).
          \<forall>p \<in> set (sources_of e). shown_under dirPath p"
        using "4.IH"(2) [OF vis refl True] vis by (blast intro: shown_under_step)
      have rest: "\<And>fs1. \<forall>e \<in> set (events (scanEntries ffmpeg n fs1 dirPath entries)).
          \<forall>p \<in> set (sources_of e). shown_under dirPath p"
        using "4.IH"(3) [OF vis refl True] by blast
      show ?thesis
        using vis True sub rest by (auto simp: Let_def events_andThen)
    next
      case False
      note isfile = False
      show ?thesis
      proof (cases "supported ?full")
        case True
        have conv: "\<forall>e \<in> set (events (convertVideoFile ffmpeg fs ?full)).
            \<forall>p \<in> set (sources_of e). shown_under dirPath p"
        proof (intro ballI)
          fix e p assume "e \<in> set (events (convertVideoFile ffmpeg fs ?full))"
            "p \<in> set (sources_of e)"
          then have "p = ?full \<or> p = outputPath_of ?full"
            by (rule convertVideoFile_sources)
          then show "shown_under dirPath p"
            using vis
            by (auto simp: outputPath_of_join intro!: shown_under_join replaceExtension_name_shown)
        qed
        have rest: "\<And>fs1. \<forall>e \<in> set (events (scanEntries ffmpeg n fs1 dirPath entries)).
            \<forall>p \<in> set (sources_of e). shown_under dirPath p"
          using "4.IH"(4) [OF vis refl isfile True] by blast
        show ?thesis
          using vis isfile True conv rest by (auto simp: Let_def events_andThen)
      next
        case False
        show ?thesis
          using vis isfile False "4.IH"(5,6) [OF vis refl isfile False]
          by (auto simp: Let_def)
      qed
    qed
  qed
qed


lemma scan_events_all:
  assumes "\<And>d. G (Log (Scanning d))" and "\<And>d. G (ReadDir d)" and "\<And>p. G (Log (SkipWebm p))"
  shows "(\<forall>fs p e. supported p \<longrightarrow> e \<in> set (events (convertVideoFile f fs p)) \<longrightarrow> G e) \<Longrightarrow>
           \<forall>e \<in> set (events (scanDirectoryRecursively f n fs d)). G e"
    and "(\<forall>fs p e. supported p \<longrightarrow> e \<in> set (events (convertVideoFile f fs p)) \<longrightarrow> G e) \<Longrightarrow>
           \<forall>e \<in> set (events (scanEntries f n fs d es)). G e"
proof (induction f n fs d and f n fs d es rule: scanDirectoryRecursively_scanEntries.induct)
  case (1 ffmpeg fs dirPath)
  then show ?case by simp
next
  case (2 ffmpeg n fs dirPath)
  show ?case
  proof (cases "readDir fs dirPath")
    case None
    then show ?thesis using assms(1,2) by simp
  next
    case (Some entries)
    then show ?thesis
      using "2.IH" [OF Some "2.prems"] assms(1,2) by simp
  qed
next
  case (3 ffmpeg n fs dirPath)
  then show ?case by simp
next
  case (4 ffmpeg n fs dirPath entry entries)
  note step = "4.prems"
  show ?case
  proof (cases "startsWith (fst entry) ''.''")
    case True
    then show ?thesis
      using "4.IH"(1) [OF True step] by simp
  next
    case False
    note vis = False
    let ?full = "join dirPath (fst entry)"
    show ?thesis
    proof (cases "snd entry")
      case True
      have sub: "\<forall>e \<in> set (events (scanDirectoryRecursively ffmpeg n fs ?full)). G e"
        using "4.IH"(2) [OF vis refl True step] .
      have rest: "\<And>fs1. \<forall>e \<in> set (events (scanEntries ffmpeg n fs1 dirPath entries)). G e"
        using "4.IH"(3) [OF vis refl True step] .
      show ?thesis
        using vis True sub rest by (auto simp: Let_def events_andThen)
    next
      case False
      note isfile = False
      show ?thesis
      proof (cases "supported ?full")
        case True
        have conv: "\<forall>e \<in> set (events (convertVideoFile ffmpeg fs ?full)). G e"
          using step True by blast
        have rest: "\<And>fs1. \<forall>e \<in> set (events (scanEntries ffmpeg n fs1 dirPath entries)). G e"
          using "4.IH"(4) [OF vis refl isfile True step] .
        show ?thesis
          using vis isfile True conv rest by (auto simp: Let_def events_andThen)
      next
        case False
        have r5: "getFileExtension ?full = Some OUTPUT_EXTENSION \<Longrightarrow>
            \<forall>e \<in> set (events (scanEntries ffmpeg n fs dirPath entries)). G e"
          using "4.IH"(5) [OF vis refl isfile False _ step] .
        have r6: "getFileExtension ?full \<noteq> Some OUTPUT_EXTENSION \<Longrightarrow>
            \<forall>e \<in> set (events (scanEntries ffmpeg n fs dirPath entries)). G e"
          using "4.IH"(6) [OF vis refl isfile False _ step] .
        show ?thesis
          using vis isfile False r5 r6 assms(3)
          by (auto simp: Let_def)
      qed
    qed
  qed
qed

lemma convertVideoFile_Spawn:
  assumes "Spawn prog args ok \<in> set (events (convertVideoFile f fs inp))"
  shows "supported inp \<and> prog = ''ffmpeg'' \<and> args = ffmpeg_args inp (outputPath_of inp)"
  using assms
  by (auto simp: convertVideoFile_def Let_def split: option.splits sum.splits if_splits)

lemma convertVideoFile_Remove_src:
  "Remove q r ok \<in> set (events (convertVideoFile f fs p)) \<Longrightarrow> q = p \<and> supported p"
  using convertVideoFile_Remove_iff [of q f fs p] by blast

lemma scan_removes_supported:
  assumes "Remove q r ok \<in> set (events (scanDirectoryRecursively f n fs d))"
  shows "supported q"
proof -
  let ?G = "\<lambda>e. case e of Remove q r ok \<Rightarrow> supported q | _ \<Rightarrow> True"
  have "\<forall>e \<in> set (events (scanDirectoryRecursively f n fs d)). ?G e"
  proof (rule scan_events_all(1))
    show "\<forall>fs p e. supported p \<longrightarrow> e \<in> set (events (convertVideoFile f fs p)) \<longrightarrow> ?G e"
    proof (intro allI impI)
      fix fs p e
      assume "supported p" "e \<in> set (events (convertVideoFile f fs p))"
      then show "?G e"
        by (cases e) (auto dest: convertVideoFile_Remove_src)
    qed
  qed simp_all
  with assms show ?thesis by fastforce
qed

lemma scan_spawns_supported:
  assumes "Spawn prog args ok \<in> set (events (scanDirectoryRecursively f n fs d))"
  shows "\<exists>inp. supported inp \<and> args = ffmpeg_args inp (outputPath_of inp)"
proof -
  let ?G = "\<lambda>e. case e of Spawn prog args ok \<Rightarrow>
      (\<exists>inp. supported inp \<and> args = ffmpeg_args inp (outputPath_of inp)) | _ \<Rightarrow> True"
  have "\<forall>e \<in> set (events (scanDirectoryRecursively f n fs d)). ?G e"
  proof (rule scan_events_all(1))
    show "\<forall>fs p e. supported p \<longrightarrow> e \<in> set (events (convertVideoFile f fs p)) \<longrightarrow> ?G e"
    proof (intro allI impI)
      fix fs p e
      assume "supported p" "e \<in> set (events (convertVideoFile f fs p))"
      then show "?G e"
        by (cases e) (auto dest: convertVideoFile_Spawn)
    qed
  qed simp_all
  with assms show ?thesis by fastforce
qed

lemma scan_frame:
  assumes "fileExists fs0 q"
  shows "lookup fs q = lookup fs0 q \<Longrightarrow> \<not> shown_under d q \<or> \<not> supported q \<Longrightarrow>
           lookup (fs_of (scanDirectoryRecursively f n fs d)) q = lookup fs0 q"
    and "lookup fs q = lookup fs0 q \<Longrightarrow> \<not> shown_under d q \<or> \<not> supported q \<Longrightarrow>
           lookup (fs_of (scanEntries f n fs d es)) q = lookup fs0 q"
proof (induction f n fs d and f n fs d es rule: scanDirectoryRecursively_scanEntries.induct)
  case (1 ffmpeg fs dirPath)
  then show ?case by simp
next
  case (2 ffmpeg n fs dirPath)
  then show ?case by (auto split: option.splits)
next
  case (3 ffmpeg n fs dirPath)
  then show ?case by simp
next
  case (4 ffmpeg n fs dirPath entry entries)
  note same = "4.prems"(1) and excl = "4.prems"(2)
  show ?case
  proof (cases "startsWith (fst entry) ''.''")
    case True
    with 4 show ?thesis by simp
  next
    case False
    note vis = False
    let ?full = "join dirPath (fst entry)"
    show ?thesis
    proof (cases "snd entry")
      case True
      let ?r1 = "scanDirectoryRecursively ffmpeg n fs ?full"
      have excl': "\<not> shown_under ?full q \<or> \<not> supported q"
        using excl vis by (blast intro: shown_under_step)
      have l1: "lookup (fs_of ?r1) q = lookup fs0 q"
        using "4.IH"(2) [OF vis refl True same excl'] .
      have "lookup (fs_of (scanEntries ffmpeg n (fs_of ?r1) dirPath entries)) q = lookup fs0 q"
        using "4.IH"(3) [OF vis refl True l1 excl] .
      then show ?thesis
        using vis True l1 by (simp add: Let_def fs_of_andThen)
    next
      case False
      note isfile = False
      show ?thesis
      proof (cases "supported ?full")
        case True
        let ?r1 = "convertVideoFile ffmpeg fs ?full"
        have "shown_under dirPath ?full"
          using vis by (rule shown_under_join)
        with excl True have ne: "q \<noteq> ?full" by auto
        have "fileExists fs q"
          using assms same by (simp add: fileExists_def)
        then have "lookup (fs_of ?r1) q = lookup fs q"
          using ne by (intro convertVideoFile_frame) auto
        then have l1: "lookup (fs_of ?r1) q = lookup fs0 q"
          using same by simp
        have "lookup (fs_of (scanEntries ffmpeg n (fs_of ?r1) dirPath entries)) q = lookup fs0 q"
          using "4.IH"(4) [OF vis refl isfile True l1 excl] .
        then show ?thesis
          using vis isfile True l1 by (simp add: Let_def fs_of_andThen)
      next
        case False
        show ?thesis
          using vis isfile False "4.IH"(5,6) [OF vis refl isfile False] same excl
          by (auto simp: Let_def)
      qed
    qed
  qed
qed

section \<open>Lemmas on the rename scan\<close>

lemma copy_scan_sources:
  "\<forall>e \<in> set (events (scanAndCopyFiles H n fs d td exts mv)).
     \<forall>p \<in> set (sources_of e). shown_under d p"
  "\<forall>e \<in> set (events (copyEntries H n fs d td exts mv es)).
     \<forall>p \<in> set (sources_of e). shown_under d p"
proof (induction H n fs d td exts mv and H n fs d td exts mv es
    rule: scanAndCopyFiles_copyEntries.induct)
  case (1 H fs dirPath targetPath extensions moveAfterCopy)
  then show ?case by simp
next
  case (2 H n fs dirPath targetPath extensions moveAfterCopy)
  then show ?case
    by (auto simp: shown_under_refl split: option.splits)
next
  case (3 H n fs dirPath targetPath extensions moveAfterCopy)
  then show ?case by simp
next
  case (4 H n fs dirPath targetPath extensions moveAfterCopy entry entries)
  show ?case
  proof (cases "startsWith (fst entry) ''.''")
    case True
    with 4 show ?thesis by simp
  next
    case False
    note vis = False
    let ?full = "join dirPath (fst entry)"
    show ?thesis
    proof (cases "snd entry")
      case True
      have sub: "\<forall>e \<in> set (events (scanAndCopyFiles H n fs ?full targetPath extensions
            moveAfterCopy)). \<forall>p \<in> set (sources_of e). shown_under dirPath p"
        using "4.IH"(2) [OF vis refl True] vis by (blast intro: shown_under_step)
      have rest: "\<And>fs1. \<forall>e \<in> set (events (copyEntries H n fs1 dirPath targetPath extensions
            moveAfterCopy entries)). \<forall>p \<in> set (sources_of e). shown_under dirPath p"
        using "4.IH"(3) [OF vis refl True] by blast
      show ?thesis
        using vis True sub rest by (auto simp: Let_def events_andThen)
    next
      case False
      note isfile = False
      show ?thesis
      proof (cases "matching extensions ?full")
        case True
        then have m: "\<not> (\<not> truthy (getFileExtension ?full) \<or>
            the (getFileExtension ?full) \<notin> set extensions)"
          by (simp add: matching_def)
        have conv: "\<forall>e \<in> set (events (copySingleFile H fs ?full targetPath moveAfterCopy)).
            \<forall>p \<in> set (sources_of e). shown_under dirPath p"
          using vis by (auto dest!: copySingleFile_sources intro: shown_under_join)
        have rest: "\<And>fs1. \<forall>e \<in> set (events (copyEntries H n fs1 dirPath targetPath extensions
            moveAfterCopy entries)). \<forall>p \<in> set (sources_of e). shown_under dirPath p"
          using "4.IH"(5) [OF vis refl isfile refl m] by blast
        show ?thesis
          using vis isfile m conv rest by (auto simp: Let_def events_andThen)
      next
        case False
        then have m: "\<not> truthy (getFileExtension ?full) \<or>
            the (getFileExtension ?full) \<notin> set extensions"
          by (simp add: matching_def)
        show ?thesis
          using vis isfile m "4.IH"(4) [OF vis refl isfile refl m]
          by (auto simp: Let_def)
      qed
    qed
  qed
qed


lemma copy_scan_events_all:
  assumes "\<And>d. G (ReadDir d)"
  shows "(\<forall>fs p e. matching exts p \<longrightarrow>
            e \<in> set (events (copySingleFile H fs p td mv)) \<longrightarrow> G e) \<Longrightarrow>
           \<forall>e \<in> set (events (scanAndCopyFiles H n fs d td exts mv)). G e"
    and "(\<forall>fs p e. matching exts p \<longrightarrow>
            e \<in> set (events (copySingleFile H fs p td mv)) \<longrightarrow> G e) \<Longrightarrow>
           \<forall>e \<in> set (events (copyEntries H n fs d td exts mv es)). G e"
proof (induction H n fs d td exts mv and H n fs d td exts mv es
    rule: scanAndCopyFiles_copyEntries.induct)
  case (1 H fs dirPath targetPath extensions moveAfterCopy)
  then show ?case by simp
next
  case (2 H n fs dirPath targetPath extensions moveAfterCopy)
  show ?case
  proof (cases "readDir fs dirPath")
    case None
    then show ?thesis using assms by simp
  next
    case (Some entries)
    then show ?thesis
      using "2.IH" [OF Some "2.prems"] assms by simp
  qed
next
  case (3 H n fs dirPath targetPath extensions moveAfterCopy)
  then show ?case by simp
next
  case (4 H n fs dirPath targetPath extensions moveAfterCopy entry entries)
  note step = "4.prems"
  show ?case
  proof (cases "startsWith (fst entry) ''.''")
    case True
    then show ?thesis
      using "4.IH"(1) [OF True step] by simp
  next
    case False
    note vis = False
    let ?full = "join dirPath (fst entry)"
    show ?thesis
    proof (cases "snd entry")
      case True
      have sub: "\<forall>e \<in> set (events (scanAndCopyFiles H n fs ?full targetPath extensions
            moveAfterCopy)). G e"
        using "4.IH"(2) [OF vis refl True step] .
      have rest: "\<And>fs1. \<forall>e \<in> set (events (copyEntries H n fs1 dirPath targetPath extensions
            moveAfterCopy entries)). G e"
        using "4.IH"(3) [OF vis refl True step] .
      show ?thesis
        using vis True sub rest by (auto simp: Let_def events_andThen)
    next
      case False
      note isfile = False
      show ?thesis
      proof (cases "matching extensions ?full")
        case True
        then have m: "\<not> (\<not> truthy (getFileExtension ?full) \<or>
            the (getFileExtension ?full) \<notin> set extensions)"
          by (simp add: matching_def)
        have conv: "\<forall>e \<in> set (events (copySingleFile H fs ?full targetPath moveAfterCopy)). G e"
          using step True by blast
        have rest: "\<And>fs1. \<forall>e \<in> set (events (copyEntries H n fs1 dirPath targetPath extensions
            moveAfterCopy entries)). G e"
          using "4.IH"(5) [OF vis refl isfile refl m step] .
        show ?thesis
          using vis isfile m conv rest by (auto simp: Let_def events_andThen)
      next
        case False
        then have m: "\<not> truthy (getFileExtension ?full) \<or>
            the (getFileExtension ?full) \<notin> set extensions"
          by (simp add: matching_def)
        have rest: "\<forall>e \<in> set (events (copyEntries H n fs dirPath targetPath extensions
            moveAfterCopy entries)). G e"
          using "4.IH"(4) [OF vis refl isfile refl m step] .
        show ?thesis
          using vis isfile m rest by (auto simp: Let_def)
      qed
    qed
  qed
qed

lemma copy_scan_sources_matching:
  assumes "e \<in> set (events (scanAndCopyFiles H n fs d td exts mv))"
    and "e = Digest q ok \<or> e = CopyFile q t ok \<or> e = Remove q r ok"
  shows "matching exts q"
proof -
  let ?G = "\<lambda>e. case e of Digest q ok \<Rightarrow> matching exts q
      | CopyFile q t ok \<Rightarrow> matching exts q | Remove q r ok \<Rightarrow> matching exts q | _ \<Rightarrow> True"
  have "\<forall>e \<in> set (events (scanAndCopyFiles H n fs d td exts mv)). ?G e"
  proof (rule copy_scan_events_all(1))
    show "\<forall>fs p e. matching exts p \<longrightarrow>
        e \<in> set (events (copySingleFile H fs p td mv)) \<longrightarrow> ?G e"
    proof (intro allI impI)
      fix fs p e
      assume m: "matching exts p" and e: "e \<in> set (events (copySingleFile H fs p td mv))"
      have "\<And>x. x \<in> set (sources_of e) \<Longrightarrow> x = p"
        using copySingleFile_sources [OF e] by blast
      then show "?G e"
        using m by (cases e) auto
    qed
  qed simp
  with assms show ?thesis by fastforce
qed

text \<open>No rename scan changes the file system, and none of its effects is a change.\<close>

lemma copy_scan_unchanged:
  "fs_of (scanAndCopyFiles H n fs d td exts mv) = fs"
  "fs_of (copyEntries H n fs d td exts mv es) = fs"
proof (induction H n fs d td exts mv and H n fs d td exts mv es
    rule: scanAndCopyFiles_copyEntries.induct)
  case (1 H fs dirPath targetPath extensions moveAfterCopy)
  then show ?case by simp
next
  case (2 H n fs dirPath targetPath extensions moveAfterCopy)
  then show ?case by (auto split: option.splits)
next
  case (3 H n fs dirPath targetPath extensions moveAfterCopy)
  then show ?case by simp
next
  case (4 H n fs dirPath targetPath extensions moveAfterCopy entry entries)
  show ?case
  proof (cases "startsWith (fst entry) ''.''")
    case True
    with 4 show ?thesis by simp
  next
    case False
    note vis = False
    let ?full = "join dirPath (fst entry)"
    show ?thesis
    proof (cases "snd entry")
      case True
      let ?r1 = "scanAndCopyFiles H n fs ?full targetPath extensions moveAfterCopy"
      have sub: "fs_of ?r1 = fs"
        using "4.IH"(2) [OF vis refl True] .
      have rest: "fs_of (copyEntries H n (fs_of ?r1) dirPath targetPath extensions
          moveAfterCopy entries) = fs_of ?r1"
        using "4.IH"(3) [OF vis refl True] .
      show ?thesis
        using vis True sub rest by (simp add: Let_def fs_of_andThen)
    next
      case False
      note isfile = False
      show ?thesis
      proof (cases "\<not> truthy (getFileExtension ?full) \<or>
          the (getFileExtension ?full) \<notin> set extensions")
        case True
        show ?thesis
          using vis isfile True "4.IH"(4) [OF vis refl isfile refl True]
          by (simp add: Let_def)
      next
        case False
        show ?thesis
          using vis isfile False copySingleFile_not_Done [of H fs ?full targetPath moveAfterCopy]
            copySingleFile_fs [of H fs ?full targetPath moveAfterCopy]
          by (simp add: Let_def fs_of_andThen)
      qed
    qed
  qed
qed

lemma copy_scan_quiet:
  "\<forall>e \<in> set (events (scanAndCopyFiles H n fs d td exts mv)). \<not> changes e"
proof (rule copy_scan_events_all(1))
  show "\<forall>fs p e. matching exts p \<longrightarrow>
      e \<in> set (events (copySingleFile H fs p td mv)) \<longrightarrow> \<not> changes e"
    using copySingleFile_quiet by blast
qed simp

section \<open>Lemmas on a tree whose outputs exist\<close>

lemma readDir_listed:
  assumes "readDir fs d = Some es"
  shows "listed fs d es"
  unfolding listed_def
proof (intro ballI, clarify)
  fix name isd
  assume "(name, isd) \<in> set es"
  with assms obtain p node where "(p, node) \<in> set fs" "p \<noteq> []" "butlast p = d"
    "last p = name" "is_dir node = isd"
    by (auto simp: readDir_def split: if_splits)
  then have "(join d name, node) \<in> set fs \<and> is_dir node = isd"
    by (auto simp: join_def)
  then show "\<exists>node. (join d name, node) \<in> set fs \<and> is_dir node = isd"
    by blast
qed

lemma listed_Cons: "listed fs d (e # es) \<Longrightarrow> listed fs d es"
  by (simp add: listed_def)

lemma shown_under_trans_join:
  "shown_under d0 d \<Longrightarrow> \<not> startsWith name ''.'' \<Longrightarrow> shown_under d0 (join d name)"
  by (auto simp: shown_under_def join_def prefix_def)

lemma converted_skip:
  assumes "converted fs d0" and "shown_under d0 d" and "listed fs d ((name, False) # es)"
    and "\<not> startsWith name ''.''" and "supported (join d name)"
  shows "convertVideoFile f fs (join d name) =
     (Done, fs, [Stat (outputPath_of (join d name)) True,
                 Log (SkipExists (outputPath_of (join d name)))])"
proof -
  from assms(3) obtain node where n: "(join d name, node) \<in> set fs" "\<not> is_dir node"
    by (auto simp: listed_def)
  have "shown_under d0 (join d name)"
    using assms(2,4) by (rule shown_under_trans_join)
  with assms(1,5) n have "fileExists fs (outputPath_of (join d name))"
    by (auto simp: converted_def)
  then show ?thesis
    using assms(5) by (simp add: convertVideoFile_def Let_def)
qed

lemma scan_converted_quiet:
  "converted fs d0 \<Longrightarrow> shown_under d0 d \<Longrightarrow>
     fs_of (scanDirectoryRecursively f n fs d) = fs \<and>
     (\<forall>e \<in> set (events (scanDirectoryRecursively f n fs d)). \<not> changes e)"
  "converted fs d0 \<Longrightarrow> shown_under d0 d \<Longrightarrow> listed fs d es \<Longrightarrow>
     fs_of (scanEntries f n fs d es) = fs \<and>
     (\<forall>e \<in> set (events (scanEntries f n fs d es)). \<not> changes e)"
proof (induction f n fs d and f n fs d es rule: scanDirectoryRecursively_scanEntries.induct)
  case (1 ffmpeg fs dirPath)
  then show ?case by simp
next
  case (2 ffmpeg n fs dirPath)
  show ?case
  proof (cases "readDir fs dirPath")
    case None
    then show ?thesis by simp
  next
    case (Some entries)
    then show ?thesis
      using "2.IH" [OF Some "2.prems" readDir_listed [OF Some]] by simp
  qed
next
  case (3 ffmpeg n fs dirPath)
  then show ?case by simp
next
  case (4 ffmpeg n fs dirPath entry entries)
  note cv = "4.prems"(1) and sh = "4.prems"(2) and li = "4.prems"(3)
  have li': "listed fs dirPath entries"
    using li by (rule listed_Cons)
  show ?case
  proof (cases "startsWith (fst entry) ''.''")
    case True
    then show ?thesis
      using "4.IH"(1) [OF True cv sh li'] by simp
  next
    case False
    note vis = False
    let ?full = "join dirPath (fst entry)"
    have sh': "shown_under d0 ?full"
      using sh vis by (rule shown_under_trans_join)
    show ?thesis
    proof (cases "snd entry")
      case True
      let ?r1 = "scanDirectoryRecursively ffmpeg n fs ?full"
      have r1: "fs_of ?r1 = fs \<and> (\<forall>e \<in> set (events ?r1). \<not> changes e)"
        using "4.IH"(2) [OF vis refl True cv sh'] .
      have r2: "fs_of (scanEntries ffmpeg n fs dirPath entries) = fs \<and>
          (\<forall>e \<in> set (events (scanEntries ffmpeg n fs dirPath entries)). \<not> changes e)"
        using "4.IH"(3) [OF vis refl True cv sh li'] .
      show ?thesis
        using vis True r1 r2 by (auto simp: Let_def fs_of_andThen events_andThen)
    next
      case False
      note isfile = False
      show ?thesis
      proof (cases "supported ?full")
        case True
        have li1: "listed fs dirPath ((fst entry, False) # entries)"
          using li isfile by (cases entry) simp
        have c: "convertVideoFile ffmpeg fs ?full =
            (Done, fs, [Stat (outputPath_of ?full) True, Log (SkipExists (outputPath_of ?full))])"
          using converted_skip [OF cv sh li1 vis True] .
        have r2: "fs_of (scanEntries ffmpeg n fs dirPath entries) = fs \<and>
            (\<forall>e \<in> set (events (scanEntries ffmpeg n fs dirPath entries)). \<not> changes e)"
          using "4.IH"(4) [OF vis refl isfile True cv sh li'] .
        show ?thesis
          using vis isfile True r2 by (auto simp: Let_def c)
      next
        case False
        have r5: "getFileExtension ?full = Some OUTPUT_EXTENSION \<Longrightarrow>
            fs_of (scanEntries ffmpeg n fs dirPath entries) = fs \<and>
            (\<forall>e \<in> set (events (scanEntries ffmpeg n fs dirPath entries)). \<not> changes e)"
          using "4.IH"(5) [OF vis refl isfile False _ cv sh li'] .
        have r6: "getFileExtension ?full \<noteq> Some OUTPUT_EXTENSION \<Longrightarrow>
            fs_of (scanEntries ffmpeg n fs dirPath entries) = fs \<and>
            (\<forall>e \<in> set (events (scanEntries ffmpeg n fs dirPath entries)). \<not> changes e)"
          using "4.IH"(6) [OF vis refl isfile False _ cv sh li'] .
        show ?thesis
          using vis isfile False r5 r6 by (auto simp: Let_def)
      qed
    qed
  qed
qed

section \<open>The transcode scan converts every file it can see\<close>

lemma extname_of_name_split:
  assumes "extname_of_name name \<noteq> []"
  shows "\<exists>ys zs. name = ys @ CHR ''.'' # zs \<and> ys \<noteq> [] \<and> CHR ''.'' \<notin> set zs \<and>
           extname_of_name name = CHR ''.'' # zs"
proof -
  let ?P = "\<lambda>c. c \<noteq> CHR ''.''"
  let ?tw = "takeWhile ?P (rev name)"
  let ?dw = "dropWhile ?P (rev name)"
  let ?k = "length ?tw"
  let ?n = "length name"
  from assms have kn: "?k \<noteq> ?n" and m0: "?n - ?k - 1 \<noteq> 0"
    and ex: "extname_of_name name = drop (?n - ?k - 1) name"
    by (auto simp: extname_of_name_def Let_def split: if_splits)
  have id: "rev name = ?tw @ ?dw" by simp
  have "?dw \<noteq> []"
  proof
    assume "?dw = []"
    with id have "rev name = ?tw" by simp
    then have "length (rev name) = ?k" by simp
    with kn show False by simp
  qed
  then obtain c rest where dw: "?dw = c # rest" by (cases ?dw) auto
  have "\<not> ?P (hd ?dw)"
    using \<open>?dw \<noteq> []\<close> by (rule hd_dropWhile)
  with dw have c: "c = CHR ''.''" by simp
  have "rev name = ?tw @ CHR ''.'' # rest"
    using id dw c by simp
  then have "rev (rev name) = rev (?tw @ CHR ''.'' # rest)" by (rule arg_cong)
  then have nm: "name = rev rest @ CHR ''.'' # rev ?tw" by simp
  have len: "?n = length rest + 1 + ?k"
    using arg_cong [OF nm, of length] by simp
  then have m: "?n - ?k - 1 = length (rev rest)" by simp
  have "drop (?n - ?k - 1) name = CHR ''.'' # rev ?tw"
    unfolding m by (subst nm) simp
  moreover have "rev rest \<noteq> []"
    using m0 m by auto
  moreover have "CHR ''.'' \<notin> set (rev ?tw)"
    by (auto dest: set_takeWhileD)
  ultimately show ?thesis
    using nm ex by metis
qed

lemma extname_of_name_webm:
  assumes "ys \<noteq> []"
  shows "extname_of_name (ys @ ''.webm'') = ''.webm''"
proof -
  have tw: "takeWhile (\<lambda>c. c \<noteq> CHR ''.'') (rev (ys @ ''.webm'')) = ''mbew''"
    by simp
  have ne: "ys @ ''.webm'' \<noteq> ''..''"
    by (metis assms length_append length_Cons list.size(3) add_Suc_right Suc_inject
        nat.distinct(1) length_0_conv)
  show ?thesis
    using assms ne by (simp add: extname_of_name_def Let_def tw)
qed

lemma toLowerChar_idem: "toLowerChar (toLowerChar c) = toLowerChar c"
  by (auto simp: toLowerChar_def split: option.splits if_splits)

lemma toLowerCase_idem: "toLowerCase (toLowerCase s) = toLowerCase s"
  by (simp add: toLowerCase_def toLowerChar_idem)

lemma supported_name:
  assumes "supported p"
  shows "p \<noteq> [] \<and> (\<exists>ys zs. last p = ys @ CHR ''.'' # zs \<and> ys \<noteq> [] \<and>
           getFileExtension p = Some (toLowerCase zs) \<and> toLowerCase zs \<in> set SUPPORTED_EXTENSIONS)"
proof -
  from assms have ne: "p \<noteq> []" and x: "extname_of_name (last p) \<noteq> []"
    by (auto simp: supported_def getFileExtension_def extname_def truthy_def Let_def
        split: if_splits)
  from extname_of_name_split [OF x] obtain ys zs where
    s: "last p = ys @ CHR ''.'' # zs" "ys \<noteq> []" "extname_of_name (last p) = CHR ''.'' # zs"
    by blast
  have g: "getFileExtension p = Some (toLowerCase zs)"
    using ne s(3) by (simp add: getFileExtension_def extname_def Let_def)
  with assms have "toLowerCase zs \<in> set SUPPORTED_EXTENSIONS"
    by (simp add: supported_def Let_def)
  with ne s g show ?thesis by blast
qed

lemma outputPath_of_supported:
  assumes "supported p"
  shows "\<exists>ys. ys \<noteq> [] \<and> outputPath_of p = butlast p @ [ys @ ''.webm'']"
proof -
  from supported_name [OF assms] obtain ys zs where ne: "p \<noteq> []"
    and s: "last p = ys @ CHR ''.'' # zs" "ys \<noteq> []"
    and g: "getFileExtension p = Some (toLowerCase zs)"
    by blast
  have l: "length (toLowerCase zs) = length zs" by (simp add: toLowerCase_def)
  have d: "drop (length (last p) - (length zs + 1)) (last p) = CHR ''.'' # zs"
    by (simp add: s)
  have t: "take (length (last p) - (length zs + 1)) (last p) = ys"
    by (simp add: s)
  have m: "toLowerCase (CHR ''.'' # zs) = toLowerCase (CHR ''.'' # toLowerCase zs)"
    using toLowerCase_idem [of zs] by (simp add: toLowerCase_def)
  have "replaceExtension_name (last p) (toLowerCase zs) = ys @ ''.webm''"
    using d t m by (simp add: replaceExtension_name_def Let_def l s OUTPUT_EXTENSION_def)
  then have "outputPath_of p = butlast p @ [ys @ ''.webm'']"
    using ne g by (simp add: outputPath_of_def replaceExtension_def)
  with s(2) show ?thesis by blast
qed

lemma unsupported_output:
  assumes "supported p"
  shows "\<not> supported (outputPath_of p)"
proof -
  from outputPath_of_supported [OF assms] obtain ys where
    ys: "ys \<noteq> []" and o: "outputPath_of p = butlast p @ [ys @ ''.webm'']" by blast
  have "getFileExtension (outputPath_of p) = Some ''webm''"
    using extname_of_name_webm [OF ys]
    by (simp add: o getFileExtension_def extname_def Let_def toLowerCase_def toLowerChar_def)
  then show ?thesis
    by (simp add: supported_def Let_def SUPPORTED_EXTENSIONS_def truthy_def)
qed

lemma outputPath_of_neq:
  "supported p \<Longrightarrow> outputPath_of p \<noteq> p"
  using unsupported_output by metis

text \<open>
  What a step leaves in the file system: an entry that was there before, or a file whose
  name the scan does not convert.
\<close>

lemma update_entries:
  "(q, node) \<in> set (AList.update k v al) \<Longrightarrow> (q, node) \<in> set al \<or> (q, node) = (k, v)"
  by (induction al) (auto split: if_splits)

lemma update_new:
  "k \<notin> fst ` set al \<Longrightarrow> AList.update k v al = al @ [(k, v)]"
  by (induction al) auto

lemma tool_output_entries:
  "(q, node) \<in> set (tool_output fs out w) \<Longrightarrow>
   (q, node) \<in> set fs \<or> (q = out \<and> node \<noteq> D)"
  by (auto simp: tool_output_def writeFile_def dest!: update_entries split: option.splits if_splits)

lemma tool_output_new:
  "\<not> fileExists fs out \<Longrightarrow> (a, node) \<in> set fs \<Longrightarrow> (a, node) \<in> set (tool_output fs out w)"
  by (auto simp: tool_output_def writeFile_def fileExists_def lookup_None_iff update_new
      split: option.splits if_splits)

lemma tool_output_distinct:
  "distinct (map fst fs) \<Longrightarrow> distinct (map fst (tool_output fs out w))"
  by (auto simp: tool_output_def writeFile_def distinct_update split: option.splits if_splits)

lemma remove_entries:
  "remove fs p r = Inr fs' \<Longrightarrow> (q, node) \<in> set fs' \<Longrightarrow> (q, node) \<in> set fs"
  by (auto simp: remove_def split: option.splits if_splits)

lemma remove_distinct:
  "remove fs p r = Inr fs' \<Longrightarrow> distinct (map fst fs) \<Longrightarrow> distinct (map fst fs')"
  by (auto simp: remove_def distinct_map_filter split: option.splits if_splits)

lemma remove_file_keeps:
  assumes "remove fs p False = Inr fs'" and "(a, node) \<in> set fs" and "a \<noteq> p"
  shows "(a, node) \<in> set fs'"
proof -
  from assms(1) have fs': "fs' = filter (\<lambda>(q, n). \<not> prefix p q) fs"
    and nostrict: "\<forall>q \<in> fst ` set fs. \<not> strict_prefix p q"
    by (auto simp: remove_def split: option.splits if_splits)
  from assms(2) nostrict have "\<not> strict_prefix p a" by force
  with assms(3) have "\<not> prefix p a" by (auto simp: strict_prefix_def)
  with assms(2) show ?thesis by (simp add: fs')
qed

lemma convertVideoFile_fs_cases:
  "fs_of (convertVideoFile f fs inp) = fs \<or>
   (supported inp \<and> \<not> fileExists fs (outputPath_of inp) \<and>
    (fs_of (convertVideoFile f fs inp) =
       tool_output fs (outputPath_of inp) (snd (f fs inp (outputPath_of inp))) \<or>
     remove (tool_output fs (outputPath_of inp) (snd (f fs inp (outputPath_of inp)))) inp False =
       Inr (fs_of (convertVideoFile f fs inp))))"
  by (auto simp: convertVideoFile_def Let_def split: option.splits sum.splits)

lemma convertVideoFile_origin:
  assumes "(q, node) \<in> set (fs_of (convertVideoFile f fs inp))"
  shows "(q, node) \<in> set fs \<or> (node \<noteq> D \<and> \<not> supported q)"
proof -
  let ?out = "outputPath_of inp"
  let ?fs1 = "tool_output fs ?out (snd (f fs inp ?out))"
  let ?fs' = "fs_of (convertVideoFile f fs inp)"
  have t: "(q, node) \<in> set ?fs1 \<Longrightarrow> supported inp \<Longrightarrow> ?thesis"
    using tool_output_entries [of q node fs ?out] unsupported_output [of inp] by blast
  from convertVideoFile_fs_cases [of f fs inp] consider
    (same) "?fs' = fs"
    | (tool) "supported inp" "?fs' = ?fs1"
    | (rem) "supported inp" "remove ?fs1 inp False = Inr ?fs'"
    by blast
  then show ?thesis
  proof cases
    case same
    with assms show ?thesis by simp
  next
    case tool
    with assms t show ?thesis by simp
  next
    case rem
    from remove_entries [OF rem(2) assms] t rem(1) show ?thesis by blast
  qed
qed

lemma convertVideoFile_distinct:
  assumes "distinct (map fst fs)"
  shows "distinct (map fst (fs_of (convertVideoFile f fs inp)))"
proof -
  let ?out = "outputPath_of inp"
  let ?fs1 = "tool_output fs ?out (snd (f fs inp ?out))"
  let ?fs' = "fs_of (convertVideoFile f fs inp)"
  have d1: "distinct (map fst ?fs1)"
    using assms by (rule tool_output_distinct)
  from convertVideoFile_fs_cases [of f fs inp] consider
    (same) "?fs' = fs"
    | (tool) "supported inp" "?fs' = ?fs1"
    | (rem) "supported inp" "remove ?fs1 inp False = Inr ?fs'"
    by blast
  then show ?thesis
  proof cases
    case same
    with assms show ?thesis by simp
  next
    case tool
    with d1 show ?thesis by simp
  next
    case rem
    from remove_distinct [OF rem(2) d1] show ?thesis .
  qed
qed

lemma convertVideoFile_keeps:
  assumes "(a, node) \<in> set fs" and "a \<noteq> inp"
  shows "(a, node) \<in> set (fs_of (convertVideoFile f fs inp))"
proof -
  let ?out = "outputPath_of inp"
  let ?fs1 = "tool_output fs ?out (snd (f fs inp ?out))"
  let ?fs' = "fs_of (convertVideoFile f fs inp)"
  from convertVideoFile_fs_cases [of f fs inp] consider
    (same) "?fs' = fs"
    | (tool) "\<not> fileExists fs ?out" "?fs' = ?fs1"
    | (rem) "\<not> fileExists fs ?out" "remove ?fs1 inp False = Inr ?fs'"
    by blast
  then show ?thesis
  proof cases
    case same
    with assms show ?thesis by simp
  next
    case tool
    with tool_output_new [OF tool(1) assms(1)] show ?thesis by simp
  next
    case rem
    from remove_file_keeps [OF rem(2) tool_output_new [OF rem(1) assms(1)] assms(2)]
    show ?thesis .
  qed
qed

lemma scan_origin:
  "(q, node) \<in> set (fs_of (scanDirectoryRecursively f n fs d)) \<Longrightarrow>
     (q, node) \<in> set fs \<or> (node \<noteq> D \<and> \<not> supported q)"
  "(q, node) \<in> set (fs_of (scanEntries f n fs d es)) \<Longrightarrow>
     (q, node) \<in> set fs \<or> (node \<noteq> D \<and> \<not> supported q)"
proof (induction f n fs d and f n fs d es rule: scanDirectoryRecursively_scanEntries.induct)
  case (1 ffmpeg fs dirPath)
  then show ?case by simp
next
  case (2 ffmpeg n fs dirPath)
  show ?case
  proof (cases "readDir fs dirPath")
    case None
    then show ?thesis using "2.prems" by simp
  next
    case (Some entries)
    then show ?thesis
      using "2.IH" [OF Some] "2.prems" by simp
  qed
next
  case (3 ffmpeg n fs dirPath)
  then show ?case by simp
next
  case (4 ffmpeg n fs dirPath entry entries)
  note mem = "4.prems"
  show ?case
  proof (cases "startsWith (fst entry) ''.''")
    case True
    then show ?thesis
      using "4.IH"(1) [OF True] mem by simp
  next
    case False
    note vis = False
    let ?full = "join dirPath (fst entry)"
    show ?thesis
    proof (cases "snd entry")
      case True
      let ?r1 = "scanDirectoryRecursively ffmpeg n fs ?full"
      from mem consider
        (a) "(q, node) \<in> set (fs_of ?r1)"
        | (b) "(q, node) \<in> set (fs_of (scanEntries ffmpeg n (fs_of ?r1) dirPath entries))"
        using vis True by (auto simp: Let_def fs_of_andThen split: if_splits)
      then show ?thesis
      proof cases
        case a
        then show ?thesis using "4.IH"(2) [OF vis refl True] by blast
      next
        case b
        then have "(q, node) \<in> set (fs_of ?r1) \<or> (node \<noteq> D \<and> \<not> supported q)"
          using "4.IH"(3) [OF vis refl True] by blast
        then show ?thesis using "4.IH"(2) [OF vis refl True] by blast
      qed
    next
      case False
      note isfile = False
      show ?thesis
      proof (cases "supported ?full")
        case True
        let ?r1 = "convertVideoFile ffmpeg fs ?full"
        from mem consider
          (a) "(q, node) \<in> set (fs_of ?r1)"
          | (b) "(q, node) \<in> set (fs_of (scanEntries ffmpeg n (fs_of ?r1) dirPath entries))"
          using vis isfile True by (auto simp: Let_def fs_of_andThen split: if_splits)
        then show ?thesis
        proof cases
          case a
          then show ?thesis by (rule convertVideoFile_origin)
        next
          case b
          then have "(q, node) \<in> set (fs_of ?r1) \<or> (node \<noteq> D \<and> \<not> supported q)"
            using "4.IH"(4) [OF vis refl isfile True] by blast
          then show ?thesis using convertVideoFile_origin by blast
        qed
      next
        case False
        show ?thesis
          using vis isfile False mem "4.IH"(5,6) [OF vis refl isfile False]
          by (auto simp: Let_def split: if_splits)
      qed
    qed
  qed
qed


lemma distinct_same_key:
  "distinct (map fst fs) \<Longrightarrow> (p, x) \<in> set fs \<Longrightarrow> (p, y) \<in> set fs \<Longrightarrow> x = y"
  by (rule eq_key_imp_eq_value)

lemma readDir_flags_agree:
  assumes "distinct (map fst fs)" and "readDir fs d = Some es"
  shows "flags_agree fs d es"
proof -
  have "isd = ((join d c, D) \<in> set fs)" if c: "(c, isd) \<in> set es" for c isd
  proof -
    from readDir_listed [OF assms(2)] c obtain node where
      n: "(join d c, node) \<in> set fs" "is_dir node = isd"
      by (auto simp: listed_def)
    show ?thesis
    proof (cases node)
      case (F b)
      have "(join d c, D) \<notin> set fs"
        using distinct_same_key [OF assms(1) n(1)] F by auto
      then show ?thesis using n(2) F by (simp add: is_dir_def)
    next
      case D
      then show ?thesis using n by (simp add: is_dir_def)
    qed
  qed
  then show ?thesis
    unfolding flags_agree_def by auto
qed

lemma flags_agree_Cons: "flags_agree fs d (e # es) \<Longrightarrow> flags_agree fs d es"
  by (simp add: flags_agree_def)

lemma flags_agree_later:
  assumes "flags_agree fs d es"
    and "\<And>q. (q, D) \<in> set fs' \<Longrightarrow> (q, D) \<in> set fs"
    and "\<And>q. (q, D) \<in> set fs \<Longrightarrow> (q, D) \<in> set fs'"
  shows "flags_agree fs' d es"
  using assms unfolding flags_agree_def by blast

lemma scan_keeps_dirs:
  "distinct (map fst fs) \<Longrightarrow>
     distinct (map fst (fs_of (scanDirectoryRecursively f n fs d))) \<and>
     (\<forall>a. (a, D) \<in> set fs \<longrightarrow> (a, D) \<in> set (fs_of (scanDirectoryRecursively f n fs d)))"
  "distinct (map fst fs) \<Longrightarrow> flags_agree fs d es \<Longrightarrow>
     distinct (map fst (fs_of (scanEntries f n fs d es))) \<and>
     (\<forall>a. (a, D) \<in> set fs \<longrightarrow> (a, D) \<in> set (fs_of (scanEntries f n fs d es)))"
proof (induction f n fs d and f n fs d es rule: scanDirectoryRecursively_scanEntries.induct)
  case (1 ffmpeg fs dirPath)
  then show ?case by simp
next
  case (2 ffmpeg n fs dirPath)
  show ?case
  proof (cases "readDir fs dirPath")
    case None
    then show ?thesis using "2.prems" by simp
  next
    case (Some entries)
    then show ?thesis
      using "2.IH" [OF Some "2.prems" readDir_flags_agree [OF "2.prems" Some]] by simp
  qed
next
  case (3 ffmpeg n fs dirPath)
  then show ?case by simp
next
  case (4 ffmpeg n fs dirPath entry entries)
  note di = "4.prems"(1) and ff = "4.prems"(2)
  have ff': "flags_agree fs dirPath entries"
    using ff by (rule flags_agree_Cons)
  show ?case
  proof (cases "startsWith (fst entry) ''.''")
    case True
    then show ?thesis
      using "4.IH"(1) [OF True di ff'] by simp
  next
    case False
    note vis = False
    let ?full = "join dirPath (fst entry)"
    show ?thesis
    proof (cases "snd entry")
      case True
      let ?r1 = "scanDirectoryRecursively ffmpeg n fs ?full"
      let ?r2 = "scanEntries ffmpeg n (fs_of ?r1) dirPath entries"
      have r1: "distinct (map fst (fs_of ?r1)) \<and>
          (\<forall>a. (a, D) \<in> set fs \<longrightarrow> (a, D) \<in> set (fs_of ?r1))"
        using "4.IH"(2) [OF vis refl True di] .
      have ff1: "flags_agree (fs_of ?r1) dirPath entries"
      proof (rule flags_agree_later [OF ff'])
        fix q
        assume "(q, D) \<in> set (fs_of ?r1)"
        from scan_origin(1) [OF this] show "(q, D) \<in> set fs" by simp
      next
        fix q
        assume "(q, D) \<in> set fs"
        then show "(q, D) \<in> set (fs_of ?r1)" using r1 by simp
      qed
      have r2: "distinct (map fst (fs_of ?r2)) \<and>
          (\<forall>a. (a, D) \<in> set (fs_of ?r1) \<longrightarrow> (a, D) \<in> set (fs_of ?r2))"
        using "4.IH"(3) [OF vis refl True conjunct1 [OF r1] ff1] .
      show ?thesis
        using vis True r1 r2 by (auto simp: Let_def fs_of_andThen)
    next
      case False
      note isfile = False
      show ?thesis
      proof (cases "supported ?full")
        case True
        let ?r1 = "convertVideoFile ffmpeg fs ?full"
        let ?r2 = "scanEntries ffmpeg n (fs_of ?r1) dirPath entries"
        have nd: "(?full, D) \<notin> set fs"
          using ff isfile by (cases entry) (auto simp: flags_agree_def)
        have d1: "distinct (map fst (fs_of ?r1))"
          using di by (rule convertVideoFile_distinct)
        have k1: "\<forall>a. (a, D) \<in> set fs \<longrightarrow> (a, D) \<in> set (fs_of ?r1)"
          using nd by (auto intro: convertVideoFile_keeps)
        have ff1: "flags_agree (fs_of ?r1) dirPath entries"
        proof (rule flags_agree_later [OF ff'])
          fix q
          assume "(q, D) \<in> set (fs_of ?r1)"
          from convertVideoFile_origin [OF this] show "(q, D) \<in> set fs" by simp
        next
          fix q
          assume "(q, D) \<in> set fs"
          then show "(q, D) \<in> set (fs_of ?r1)" using k1 by simp
        qed
        have r2: "distinct (map fst (fs_of ?r2)) \<and>
            (\<forall>a. (a, D) \<in> set (fs_of ?r1) \<longrightarrow> (a, D) \<in> set (fs_of ?r2))"
          using "4.IH"(4) [OF vis refl isfile True d1 ff1] .
        show ?thesis
          using vis isfile True d1 k1 r2 by (auto simp: Let_def fs_of_andThen)
      next
        case False
        have r5: "getFileExtension ?full = Some OUTPUT_EXTENSION \<Longrightarrow>
            distinct (map fst (fs_of (scanEntries ffmpeg n fs dirPath entries))) \<and>
            (\<forall>a. (a, D) \<in> set fs \<longrightarrow>
               (a, D) \<in> set (fs_of (scanEntries ffmpeg n fs dirPath entries)))"
          using "4.IH"(5) [OF vis refl isfile False _ di ff'] .
        have r6: "getFileExtension ?full \<noteq> Some OUTPUT_EXTENSION \<Longrightarrow>
            distinct (map fst (fs_of (scanEntries ffmpeg n fs dirPath entries))) \<and>
            (\<forall>a. (a, D) \<in> set fs \<longrightarrow>
               (a, D) \<in> set (fs_of (scanEntries ffmpeg n fs dirPath entries)))"
          using "4.IH"(6) [OF vis refl isfile False _ di ff'] .
        show ?thesis
          using vis isfile False r5 r6 by (auto simp: Let_def)
      qed
    qed
  qed
qed

lemma convertVideoFile_stat:
  "supported inp \<Longrightarrow> \<exists>x. Stat (outputPath_of inp) x \<in> set (events (convertVideoFile f fs inp))"
  by (auto simp: convertVideoFile_def Let_def split: option.splits sum.splits)

lemma convertVideoFile_stat_exists:
  assumes "status_of (convertVideoFile f fs inp) = Done"
    and "Stat p x \<in> set (events (convertVideoFile f fs inp))"
  shows "fileExists (fs_of (convertVideoFile f fs inp)) p \<and> \<not> supported p"
proof -
  let ?out = "outputPath_of inp"
  let ?fs1 = "tool_output fs ?out (snd (f fs inp ?out))"
  from assms(2) have sup: "supported inp" and p: "p = ?out"
    by (auto simp: convertVideoFile_def Let_def split: option.splits sum.splits if_splits)
  have uns: "\<not> supported p"
    using sup p by (simp add: unsupported_output)
  show ?thesis
  proof (cases "fileExists fs ?out")
    case True
    then show ?thesis
      using sup p uns by (simp add: convertVideoFile_def Let_def)
  next
    case False
    from assms(1) sup False obtain node fs2 where
      n: "lookup ?fs1 ?out = Some node" and r: "remove ?fs1 inp False = Inr fs2"
      by (auto simp: convertVideoFile_def Let_def split: option.splits sum.splits if_splits)
    have e: "fs_of (convertVideoFile f fs inp) = fs2"
      using assms(1) sup False n r
      by (auto simp: convertVideoFile_def Let_def split: option.splits sum.splits if_splits)
    have "lookup fs2 ?out = lookup ?fs1 ?out"
      using lookup_remove [OF r, of ?out] outputPath_of_neq [OF sup] by simp
    then show ?thesis
      using n e p uns by (simp add: fileExists_def)
  qed
qed

lemma scan_stat_exists:
  "status_of (scanDirectoryRecursively f n fs d) = Done \<Longrightarrow>
     Stat p x \<in> set (events (scanDirectoryRecursively f n fs d)) \<Longrightarrow>
     fileExists (fs_of (scanDirectoryRecursively f n fs d)) p \<and> \<not> supported p"
  "status_of (scanEntries f n fs d es) = Done \<Longrightarrow>
     Stat p x \<in> set (events (scanEntries f n fs d es)) \<Longrightarrow>
     fileExists (fs_of (scanEntries f n fs d es)) p \<and> \<not> supported p"
proof (induction f n fs d and f n fs d es rule: scanDirectoryRecursively_scanEntries.induct)
  case (1 ffmpeg fs dirPath)
  then show ?case by simp
next
  case (2 ffmpeg n fs dirPath)
  show ?case
  proof (cases "readDir fs dirPath")
    case None
    then show ?thesis using "2.prems" by simp
  next
    case (Some entries)
    have "status_of (scanEntries ffmpeg n fs dirPath entries) = Done"
      using "2.prems"(1) Some by simp
    moreover have "Stat p x \<in> set (events (scanEntries ffmpeg n fs dirPath entries))"
      using "2.prems"(2) Some by (auto simp: events_after)
    ultimately show ?thesis
      using "2.IH" [OF Some] Some by simp
  qed
next
  case (3 ffmpeg n fs dirPath)
  then show ?case by simp
next
  case (4 ffmpeg n fs dirPath entry entries)
  note dn = "4.prems"(1) and st = "4.prems"(2)
  show ?case
  proof (cases "startsWith (fst entry) ''.''")
    case True
    then show ?thesis
      using "4.IH"(1) [OF True] dn st by simp
  next
    case False
    note vis = False
    let ?full = "join dirPath (fst entry)"
    show ?thesis
    proof (cases "snd entry")
      case True
      let ?r1 = "scanDirectoryRecursively ffmpeg n fs ?full"
      let ?r2 = "scanEntries ffmpeg n (fs_of ?r1) dirPath entries"
      have e: "scanEntries ffmpeg n fs dirPath (entry # entries) = andThen ?r1 (\<lambda>fs1. scanEntries ffmpeg n fs1 dirPath entries)"
        using vis True by (simp add: Let_def)
      have d1: "status_of ?r1 = Done" and d2: "status_of ?r2 = Done"
        using dn unfolding e by (auto simp: andThen_def after_def status_of_def split: if_splits)
      have fsE: "fs_of (scanEntries ffmpeg n fs dirPath (entry # entries)) = fs_of ?r2"
        unfolding e using d1 by (simp add: andThen_def after_def fs_of_def)
      have evE: "events (scanEntries ffmpeg n fs dirPath (entry # entries)) = events ?r1 @ events ?r2"
        unfolding e using d1 by (simp add: andThen_def after_def events_def)
      from st evE consider (a) "Stat p x \<in> set (events ?r1)" | (b) "Stat p x \<in> set (events ?r2)"
        by auto
      then show ?thesis
      proof cases
        case a
        have i1: "fileExists (fs_of ?r1) p \<and> \<not> supported p"
          using "4.IH"(2) [OF vis refl True d1 a] .
        have "lookup (fs_of ?r2) p = lookup (fs_of ?r1) p"
          using scan_frame(2) [of "fs_of ?r1" p "fs_of ?r1" dirPath] i1 by simp
        then show ?thesis
          using i1 fsE by (simp add: fileExists_def)
      next
        case b
        show ?thesis
          using "4.IH"(3) [OF vis refl True d2 b] fsE by simp
      qed
    next
      case False
      note isfile = False
      show ?thesis
      proof (cases "supported ?full")
        case True
        let ?r1 = "convertVideoFile ffmpeg fs ?full"
        let ?r2 = "scanEntries ffmpeg n (fs_of ?r1) dirPath entries"
        have e: "scanEntries ffmpeg n fs dirPath (entry # entries) = andThen ?r1 (\<lambda>fs1. scanEntries ffmpeg n fs1 dirPath entries)"
          using vis isfile True by (simp add: Let_def)
        have d1: "status_of ?r1 = Done" and d2: "status_of ?r2 = Done"
          using dn unfolding e by (auto simp: andThen_def after_def status_of_def split: if_splits)
        have fsE: "fs_of (scanEntries ffmpeg n fs dirPath (entry # entries)) = fs_of ?r2"
          unfolding e using d1 by (simp add: andThen_def after_def fs_of_def)
        have evE: "events (scanEntries ffmpeg n fs dirPath (entry # entries)) = events ?r1 @ events ?r2"
          unfolding e using d1 by (simp add: andThen_def after_def events_def)
        from st evE consider (a) "Stat p x \<in> set (events ?r1)" | (b) "Stat p x \<in> set (events ?r2)"
          by auto
        then show ?thesis
        proof cases
          case a
          have i1: "fileExists (fs_of ?r1) p \<and> \<not> supported p"
            using convertVideoFile_stat_exists [OF d1 a] .
          have "lookup (fs_of ?r2) p = lookup (fs_of ?r1) p"
            using scan_frame(2) [of "fs_of ?r1" p "fs_of ?r1" dirPath] i1 by simp
          then show ?thesis
            using i1 fsE by (simp add: fileExists_def)
        next
          case b
          show ?thesis
            using "4.IH"(4) [OF vis refl isfile True d2 b] fsE by simp
        qed
      next
        case False
        show ?thesis
        proof (cases "getFileExtension ?full = Some OUTPUT_EXTENSION")
          case True
          have e: "scanEntries ffmpeg n fs dirPath (entry # entries) =
              after [Log (SkipWebm ?full)] (scanEntries ffmpeg n fs dirPath entries)"
            using vis isfile False True by (simp add: Let_def)
          have d2: "status_of (scanEntries ffmpeg n fs dirPath entries) = Done"
            using dn unfolding e by simp
          have s2: "Stat p x \<in> set (events (scanEntries ffmpeg n fs dirPath entries))"
            using st unfolding e by (auto simp: events_after)
          show ?thesis
            using "4.IH"(5) [OF vis refl isfile False True d2 s2] unfolding e by simp
        next
          case ne: False
          have e: "scanEntries ffmpeg n fs dirPath (entry # entries) =
              scanEntries ffmpeg n fs dirPath entries"
            using vis isfile False ne by (simp add: Let_def)
          show ?thesis
            using "4.IH"(6) [OF vis refl isfile False ne] dn st unfolding e by simp
        qed
      qed
    qed
  qed
qed

lemma tree_ancestors:
  assumes "tree fs"
  shows "(p, node) \<in> set fs \<Longrightarrow> strict_prefix q p \<Longrightarrow> (q, D) \<in> set fs"
proof (induction p arbitrary: node rule: rev_induct)
  case Nil
  then show ?case by simp
next
  case (snoc x xs)
  from assms snoc.prems(1) have "lookup fs xs = Some D"
    by (fastforce simp: tree_def)
  then have par: "(xs, D) \<in> set fs"
    by (simp add: lookup_def map_of_SomeD)
  from snoc.prems(2) have "prefix q xs" by (auto simp: strict_prefix_def prefix_snoc)
  then consider "q = xs" | "strict_prefix q xs" by (auto simp: strict_prefix_def)
  then show ?case
  proof cases
    case 1
    then show ?thesis using par by simp
  next
    case 2
    then show ?thesis using snoc.IH [OF par] by simp
  qed
qed

lemma readDir_complete:
  assumes "readDir fs d = Some es" and "(join d c, node) \<in> set fs"
  shows "(c, is_dir node) \<in> set es"
proof -
  from assms(1) have es: "es = map (\<lambda>(p, n). (last p, is_dir n))
      (filter (\<lambda>(p, n). p \<noteq> [] \<and> butlast p = d) fs)"
    by (simp add: readDir_def split: if_splits)
  have "(join d c, node) \<in> set (filter (\<lambda>(p, n). p \<noteq> [] \<and> butlast p = d) fs)"
    using assms(2) by (simp add: join_def)
  then have "(\<lambda>(p, n). (last p, is_dir n)) (join d c, node) \<in> set es"
    unfolding es by (simp only: set_map) (rule imageI)
  then show ?thesis by (simp add: join_def)
qed

lemma readDir_is_dir: "readDir fs d = Some es \<Longrightarrow> (d, D) \<in> set fs"
  by (simp add: readDir_def lookup_def map_of_SomeD split: if_splits)

lemma andThen_Done_parts:
  assumes "status_of (andThen r k) = Done"
  shows "status_of r = Done" and "status_of (k (fs_of r)) = Done"
    and "fs_of (andThen r k) = fs_of (k (fs_of r))"
    and "events (andThen r k) = events r @ events (k (fs_of r))"
  using assms
  by (auto simp: andThen_def after_def status_of_def fs_of_def events_def split: if_splits)

lemma scan_coverage:
  "status_of (scanDirectoryRecursively f n fs d) = Done \<Longrightarrow> distinct (map fst fs) \<Longrightarrow>
     (d @ c # rest, F b) \<in> set (fs_of (scanDirectoryRecursively f n fs d)) \<Longrightarrow>
     supported (d @ c # rest) \<Longrightarrow> (\<forall>x \<in> set (c # rest). \<not> startsWith x ''.'') \<Longrightarrow>
     (\<forall>q. prefix d q \<and> strict_prefix q (d @ c # rest) \<longrightarrow> (q, D) \<in> set fs) \<Longrightarrow>
     \<exists>x. Stat (outputPath_of (d @ c # rest)) x
            \<in> set (events (scanDirectoryRecursively f n fs d))"
  "status_of (scanEntries f n fs d es) = Done \<Longrightarrow> distinct (map fst fs) \<Longrightarrow>
     flags_agree fs d es \<Longrightarrow> (c, isd) \<in> set es \<Longrightarrow>
     (d @ c # rest, F b) \<in> set (fs_of (scanEntries f n fs d es)) \<Longrightarrow>
     supported (d @ c # rest) \<Longrightarrow> (\<forall>x \<in> set (c # rest). \<not> startsWith x ''.'') \<Longrightarrow>
     (\<forall>q. prefix d q \<and> strict_prefix q (d @ c # rest) \<longrightarrow> (q, D) \<in> set fs) \<Longrightarrow>
     \<exists>x. Stat (outputPath_of (d @ c # rest)) x \<in> set (events (scanEntries f n fs d es))"
proof (induction f n fs d and f n fs d es arbitrary: c rest and c rest isd
    rule: scanDirectoryRecursively_scanEntries.induct)
  case (1 ffmpeg fs dirPath)
  then show ?case by simp
next
  case (2 ffmpeg n fs dirPath)
  let ?p = "dirPath @ c # rest"
  show ?case
  proof (cases "readDir fs dirPath")
    case None
    then show ?thesis using "2.prems" by simp
  next
    case (Some entries)
    let ?r = "scanEntries ffmpeg n fs dirPath entries"
    have dn: "status_of ?r = Done"
      using "2.prems"(1) Some by simp
    have fin: "(?p, F b) \<in> set (fs_of ?r)"
      using "2.prems"(3) Some by simp
    have fl: "flags_agree fs dirPath entries"
      using "2.prems"(2) Some by (rule readDir_flags_agree)
    from scan_origin(2) [OF fin] "2.prems"(4) have ini: "(?p, F b) \<in> set fs"
      by simp
    have "\<exists>node. (join dirPath c, node) \<in> set fs"
    proof (cases rest)
      case Nil
      then show ?thesis using ini by (auto simp: join_def)
    next
      case (Cons c' rest')
      have "prefix dirPath (dirPath @ [c])" by simp
      moreover have "strict_prefix (dirPath @ [c]) ?p"
        using Cons by (simp add: strict_prefix_def)
      ultimately have "(dirPath @ [c], D) \<in> set fs"
        using "2.prems"(6) by blast
      then show ?thesis by (auto simp: join_def)
    qed
    then obtain node where "(join dirPath c, node) \<in> set fs" ..
    from readDir_complete [OF Some this] have mem: "(c, is_dir node) \<in> set entries" .
    have "\<exists>x. Stat (outputPath_of ?p) x \<in> set (events ?r)"
      using "2.IH" [OF Some dn "2.prems"(2) fl mem fin "2.prems"(4) "2.prems"(5) "2.prems"(6)] .
    then show ?thesis
      using Some by (auto simp: events_after)
  qed
next
  case (3 ffmpeg n fs dirPath)
  then show ?case by simp
next
  case (4 ffmpeg n fs dirPath entry entries)
  let ?p = "dirPath @ c # rest"
  note dn = "4.prems"(1) and di = "4.prems"(2) and fl = "4.prems"(3) and mem = "4.prems"(4)
    and fin = "4.prems"(5) and sup = "4.prems"(6) and shown = "4.prems"(7)
    and anc = "4.prems"(8)
  have fl': "flags_agree fs dirPath entries"
    using fl by (rule flags_agree_Cons)
  have headfile: "rest = [] \<and> join dirPath (fst entry) = ?p"
    if h: "(c, isd) = entry" "\<not> snd entry"
  proof -
    from fl h have nd: "(join dirPath c, D) \<notin> set fs"
      by (auto simp: flags_agree_def)
    have "rest = []"
    proof (rule ccontr)
      assume "rest \<noteq> []"
      then have "strict_prefix (dirPath @ [c]) ?p"
        by (cases rest) (simp_all add: strict_prefix_def)
      moreover have "prefix dirPath (dirPath @ [c])" by simp
      ultimately have "(dirPath @ [c], D) \<in> set fs" using anc by blast
      then show False using nd by (simp add: join_def)
    qed
    then show ?thesis using h by (auto simp: join_def)
  qed
  show ?case
  proof (cases "startsWith (fst entry) ''.''")
    case True
    have "(c, isd) \<noteq> entry" using True shown by auto
    then have mem': "(c, isd) \<in> set entries" using mem by simp
    have e: "scanEntries ffmpeg n fs dirPath (entry # entries) =
        scanEntries ffmpeg n fs dirPath entries"
      using True by simp
    show ?thesis
      using "4.IH"(1) [OF True _ di fl' mem' _ sup shown anc] dn fin unfolding e by simp
  next
    case False
    note vis = False
    let ?full = "join dirPath (fst entry)"
    show ?thesis
    proof (cases "snd entry")
      case True
      let ?r1 = "scanDirectoryRecursively ffmpeg n fs ?full"
      let ?r2 = "scanEntries ffmpeg n (fs_of ?r1) dirPath entries"
      have e: "scanEntries ffmpeg n fs dirPath (entry # entries) =
          andThen ?r1 (\<lambda>fs1. scanEntries ffmpeg n fs1 dirPath entries)"
        using vis True by (simp add: Let_def)
      note parts = andThen_Done_parts [OF dn [unfolded e]]
      have d1: "status_of ?r1 = Done" and d2: "status_of ?r2 = Done" using parts by simp_all
      have fsE: "fs_of (scanEntries ffmpeg n fs dirPath (entry # entries)) = fs_of ?r2"
        unfolding e using parts by simp
      have evE: "events (scanEntries ffmpeg n fs dirPath (entry # entries)) =
          events ?r1 @ events ?r2"
        unfolding e using parts by simp
      note k1 = scan_keeps_dirs(1) [OF di, of ffmpeg n ?full]
      have di1: "distinct (map fst (fs_of ?r1))" using k1 by simp
      have fin2: "(?p, F b) \<in> set (fs_of ?r2)" using fin fsE by simp
      from scan_origin(2) [OF fin2] sup have fin1: "(?p, F b) \<in> set (fs_of ?r1)" by simp
      have fl1: "flags_agree (fs_of ?r1) dirPath entries"
      proof (rule flags_agree_later [OF fl'])
        fix q
        assume "(q, D) \<in> set (fs_of ?r1)"
        from scan_origin(1) [OF this] show "(q, D) \<in> set fs" by simp
      next
        fix q
        assume "(q, D) \<in> set fs"
        then show "(q, D) \<in> set (fs_of ?r1)" using k1 by simp
      qed
      have anc1: "\<forall>q. prefix dirPath q \<and> strict_prefix q ?p \<longrightarrow> (q, D) \<in> set (fs_of ?r1)"
        using anc k1 by blast
      show ?thesis
      proof (cases "(c, isd) = entry")
        case hd: True
        then have c: "fst entry = c" by auto
        have dirc: "(join dirPath c, D) \<in> set fs"
          using fl hd True by (auto simp: flags_agree_def)
        then have dirc1: "(join dirPath c, D) \<in> set (fs_of ?r1)" using k1 by simp
        obtain c' rest' where r: "rest = c' # rest'"
        proof (cases rest)
          case Nil
          then have "(join dirPath c, F b) \<in> set (fs_of ?r1)"
            using fin1 by (simp add: join_def)
          from distinct_same_key [OF di1 this dirc1] show ?thesis by simp
        next
          case (Cons c' rest')
          then show ?thesis using that by simp
        qed
        have pe: "?p = ?full @ c' # rest'"
          using r c by (simp add: join_def)
        have anc': "\<forall>q. prefix ?full q \<and> strict_prefix q (?full @ c' # rest') \<longrightarrow> (q, D) \<in> set fs"
        proof (intro allI impI)
          fix q
          assume q: "prefix ?full q \<and> strict_prefix q (?full @ c' # rest')"
          then have "prefix dirPath q"
            by (auto simp: join_def elim: append_prefixD)
          then show "(q, D) \<in> set fs"
            using q anc pe by auto
        qed
        have "\<exists>x. Stat (outputPath_of (?full @ c' # rest')) x \<in> set (events ?r1)"
        proof (rule "4.IH"(2) [OF vis refl True d1 di])
          show "(?full @ c' # rest', F b) \<in> set (fs_of ?r1)" using fin1 pe by simp
          show "supported (?full @ c' # rest')" using sup pe by simp
          show "\<forall>x \<in> set (c' # rest'). \<not> startsWith x ''.''" using shown r by simp
          show "\<forall>q. prefix ?full q \<and> strict_prefix q (?full @ c' # rest') \<longrightarrow> (q, D) \<in> set fs"
            using anc' .
        qed
        then show ?thesis
          unfolding evE pe by auto
      next
        case False
        then have mem': "(c, isd) \<in> set entries" using mem by auto
        have "\<exists>x. Stat (outputPath_of ?p) x \<in> set (events ?r2)"
          using "4.IH"(3) [OF vis refl True d2 di1 fl1 mem' fin2 sup shown anc1] .
        then show ?thesis
          unfolding evE by auto
      qed
    next
      case False
      note isfile = False
      show ?thesis
      proof (cases "supported ?full")
        case True
        let ?r1 = "convertVideoFile ffmpeg fs ?full"
        let ?r2 = "scanEntries ffmpeg n (fs_of ?r1) dirPath entries"
        have e: "scanEntries ffmpeg n fs dirPath (entry # entries) =
            andThen ?r1 (\<lambda>fs1. scanEntries ffmpeg n fs1 dirPath entries)"
          using vis isfile True by (simp add: Let_def)
        note parts = andThen_Done_parts [OF dn [unfolded e]]
        have d1: "status_of ?r1 = Done" and d2: "status_of ?r2 = Done" using parts by simp_all
        have fsE: "fs_of (scanEntries ffmpeg n fs dirPath (entry # entries)) = fs_of ?r2"
          unfolding e using parts by simp
        have evE: "events (scanEntries ffmpeg n fs dirPath (entry # entries)) =
            events ?r1 @ events ?r2"
          unfolding e using parts by simp
        have nd: "(?full, D) \<notin> set fs"
          using fl isfile by (cases entry) (auto simp: flags_agree_def)
        have di1: "distinct (map fst (fs_of ?r1))"
          using di by (rule convertVideoFile_distinct)
        have k1: "\<forall>a. (a, D) \<in> set fs \<longrightarrow> (a, D) \<in> set (fs_of ?r1)"
          using nd by (auto intro: convertVideoFile_keeps)
        have fl1: "flags_agree (fs_of ?r1) dirPath entries"
        proof (rule flags_agree_later [OF fl'])
          fix q
          assume "(q, D) \<in> set (fs_of ?r1)"
          from convertVideoFile_origin [OF this] show "(q, D) \<in> set fs" by simp
        next
          fix q
          assume "(q, D) \<in> set fs"
          then show "(q, D) \<in> set (fs_of ?r1)" using k1 by simp
        qed
        have fin2: "(?p, F b) \<in> set (fs_of ?r2)" using fin fsE by simp
        have anc1: "\<forall>q. prefix dirPath q \<and> strict_prefix q ?p \<longrightarrow> (q, D) \<in> set (fs_of ?r1)"
          using anc k1 by blast
        show ?thesis
        proof (cases "(c, isd) = entry")
          case hd: True
          from headfile [OF hd isfile] have pe: "?full = ?p" by simp
          from convertVideoFile_stat [OF True, of ffmpeg fs]
          show ?thesis unfolding evE pe by auto
        next
          case False
          then have mem': "(c, isd) \<in> set entries" using mem by auto
          have "\<exists>x. Stat (outputPath_of ?p) x \<in> set (events ?r2)"
            using "4.IH"(4) [OF vis refl isfile True d2 di1 fl1 mem' fin2 sup shown anc1] .
          then show ?thesis
            unfolding evE by auto
        qed
      next
        case False
        note unsup = False
        have "(c, isd) \<noteq> entry"
        proof
          assume hd: "(c, isd) = entry"
          from headfile [OF hd isfile] sup unsup show False by simp
        qed
        then have mem': "(c, isd) \<in> set entries" using mem by auto
        show ?thesis
        proof (cases "getFileExtension ?full = Some OUTPUT_EXTENSION")
          case True
          have e: "scanEntries ffmpeg n fs dirPath (entry # entries) =
              after [Log (SkipWebm ?full)] (scanEntries ffmpeg n fs dirPath entries)"
            using vis isfile unsup True by (simp add: Let_def)
          have d2: "status_of (scanEntries ffmpeg n fs dirPath entries) = Done"
            using dn unfolding e by simp
          have fin2: "(?p, F b) \<in> set (fs_of (scanEntries ffmpeg n fs dirPath entries))"
            using fin unfolding e by simp
          have "\<exists>x. Stat (outputPath_of ?p) x \<in> set (events (scanEntries ffmpeg n fs dirPath entries))"
            using "4.IH"(5) [OF vis refl isfile unsup True d2 di fl' mem' fin2 sup shown anc] .
          then show ?thesis
            unfolding e by (auto simp: events_after)
        next
          case ne: False
          have e: "scanEntries ffmpeg n fs dirPath (entry # entries) =
              scanEntries ffmpeg n fs dirPath entries"
            using vis isfile unsup ne by (simp add: Let_def)
          show ?thesis
            using "4.IH"(6) [OF vis refl isfile unsup ne _ di fl' mem' _ sup shown anc] dn fin
            unfolding e by simp
        qed
      qed
    qed
  qed
qed

text \<open>
  A run that completes on a well-formed file system leaves every visible convertible file
  with its output in place, so the next run finds nothing to do.
\<close>

lemma scan_converts_all:
  assumes "tree fs" and "status_of (scanDirectoryRecursively f n fs d) = Done"
  shows "converted (fs_of (scanDirectoryRecursively f n fs d)) d"
proof -
  let ?r = "scanDirectoryRecursively f n fs d"
  from assms(1) have di: "distinct (map fst fs)" by (simp add: tree_def)
  have dird: "(d, D) \<in> set fs"
  proof (cases n)
    case 0
    then show ?thesis using assms(2) by simp
  next
    case (Suc m)
    then show ?thesis
      using assms(2) by (cases "readDir fs d") (auto dest: readDir_is_dir)
  qed
  have "fileExists (fs_of ?r) (outputPath_of p)"
    if p: "(p, node) \<in> set (fs_of ?r)" "\<not> is_dir node" "supported p" "shown_under d p"
    for p node
  proof -
    from p(2) obtain b where node: "node = F b"
      by (cases node) (simp_all add: is_dir_def)
    from scan_origin(1) [OF p(1)] p(3) have ini: "(p, F b) \<in> set fs"
      using node by simp
    from p(4) obtain rest where pr: "p = d @ rest"
      by (auto simp: shown_under_def prefix_def)
    have "rest \<noteq> []"
    proof
      assume "rest = []"
      then have "(d, F b) \<in> set fs" using ini pr by simp
      from distinct_same_key [OF di this dird] show False by simp
    qed
    then obtain c rest' where r: "rest = c # rest'" by (cases rest) auto
    have shown: "\<forall>x \<in> set (c # rest'). \<not> startsWith x ''.''"
      using p(4) pr r by (simp add: shown_under_def)
    have anc: "\<forall>q. prefix d q \<and> strict_prefix q (d @ c # rest') \<longrightarrow> (q, D) \<in> set fs"
      using tree_ancestors [OF assms(1) ini] pr r by simp
    have "\<exists>x. Stat (outputPath_of (d @ c # rest')) x \<in> set (events ?r)"
      using scan_coverage(1) [OF assms(2) di _ _ shown anc, of b] p(1) p(3) node pr r by simp
    then obtain x where "Stat (outputPath_of p) x \<in> set (events ?r)"
      using pr r by auto
    from scan_stat_exists(1) [OF assms(2) this] show ?thesis by simp
  qed
  then show ?thesis
    unfolding converted_def by auto
qed

lemma transcode_twice:
  assumes "tree fs" and "status_of (scanDirectoryRecursively f n fs d) = Done"
  shows "fs_of (scanDirectoryRecursively g m (fs_of (scanDirectoryRecursively f n fs d)) d)
           = fs_of (scanDirectoryRecursively f n fs d) \<and>
         (\<forall>e \<in> set (events (scanDirectoryRecursively g m
                    (fs_of (scanDirectoryRecursively f n fs d)) d)). \<not> changes e)"
  using scan_converted_quiet(1) [OF scan_converts_all [OF assms] shown_under_refl] .

section \<open>Lemmas on what an archive run touches\<close>

text \<open>Every path that the loop compresses or removes is an item of its list.\<close>

lemma compress_and_delete_item_of:
  assumes "e \<in> set (events (compress_and_delete z fs cwd))" and "item_of e = Some q"
  shows "\<exists>n. q = join cwd n \<and> \<not> startsWith n ''.'' \<and> \<not> endsWith n ''.ts''"
proof (cases "readDir fs cwd")
  case None
  then show ?thesis
    using assms by (auto simp: compress_and_delete_def item_of_def)
next
  case (Some entries)
  from assms Some have "e \<in> set (events (processItems z cwd fs (collectItems entries)))"
    by (auto simp: compress_and_delete_def events_after item_of_def)
  from processItems_item_of [OF this assms(2)]
  obtain item where "item \<in> set (collectItems entries)" "q = join cwd (fst item)"
    by auto
  then show ?thesis
    by (auto simp: collectItems_def keepItem_def)
qed

text \<open>
  An item changes the file system at its archive, which was not there, and at the paths
  from the item down. So a node that was there, and that does not lie from the item
  down, is as it was.
\<close>

lemma processItem_frame:
  assumes "fileExists fs q" and "\<not> prefix (join cwd (fst item)) q"
  shows "lookup (fs_of (processItem z cwd fs item)) q = lookup fs q"
proof (cases "fileExists fs (join cwd (fst item @ ''.7z''))")
  case True
  then show ?thesis by (simp add: processItem_skip)
next
  case False
  let ?p = "join cwd (fst item)"
  let ?out = "join cwd (fst item @ ''.7z'')"
  let ?fs1 = "tool_output fs ?out (snd (z fs ?p ?out))"
  from False assms(1) have "q \<noteq> ?out" by auto
  then have l1: "lookup ?fs1 q = lookup fs q"
    by (rule lookup_tool_output_other)
  have l2: "lookup (fs_of (deleteItem ?fs1 ?p (snd item))) q = lookup ?fs1 q"
    using assms(2)
    by (auto simp: deleteItem_def remove_def lookup_filter_prefix
        split: sum.splits option.splits if_splits)
  show ?thesis
    using False l1 l2 by (simp add: processItem_new Let_def)
qed

lemma processItems_frame:
  assumes "\<forall>item \<in> set items. \<not> prefix (join cwd (fst item)) q"
  shows "fileExists fs q \<Longrightarrow> lookup (fs_of (processItems z cwd fs items)) q = lookup fs q"
  using assms
proof (induction items arbitrary: fs)
  case Nil
  then show ?case by simp
next
  case (Cons item items)
  let ?r = "processItem z cwd fs item"
  have l: "lookup (fs_of ?r) q = lookup fs q"
    using Cons.prems by (intro processItem_frame) auto
  then have ex: "fileExists (fs_of ?r) q"
    using Cons.prems(1) by (simp add: fileExists_def)
  have "lookup (fs_of (processItems z cwd (fs_of ?r) items)) q = lookup (fs_of ?r) q"
    using Cons.IH [OF ex] Cons.prems(2) by simp
  then show ?case
    using l by (simp add: fs_of_andThen)
qed

lemma prefix_join_same:
  assumes "prefix (join cwd m) q" and "prefix (join cwd n) q"
  shows "m = n"
proof -
  from assms obtain r s where "q = cwd @ m # r" "q = cwd @ n # s"
    by (auto simp: join_def prefix_def)
  then show ?thesis by simp
qed

lemma compress_and_delete_frame:
  assumes "fileExists fs q" and "prefix (join cwd n) q"
    and "startsWith n ''.'' \<or> endsWith n ''.ts''"
  shows "lookup (fs_of (compress_and_delete z fs cwd)) q = lookup fs q"
proof (cases "readDir fs cwd")
  case None
  then show ?thesis by (simp add: compress_and_delete_def)
next
  case (Some entries)
  have "\<forall>item \<in> set (collectItems entries). \<not> prefix (join cwd (fst item)) q"
  proof
    fix item
    assume i: "item \<in> set (collectItems entries)"
    show "\<not> prefix (join cwd (fst item)) q"
    proof
      assume "prefix (join cwd (fst item)) q"
      from prefix_join_same [OF this assms(2)] have "fst item = n" .
      with i assms(3) show False
        by (auto simp: collectItems_def keepItem_def)
    qed
  qed
  from processItems_frame [OF this assms(1)] Some show ?thesis
    by (simp add: compress_and_delete_def)
qed

text \<open>
  The archive of an item passes the filter whenever the item does: it does not end in
  \<open>.ts\<close>, and it starts with a dot only if the name of the item does, or is empty.
\<close>

lemma keepItem_artifact:
  assumes "name \<noteq> []" and "\<not> startsWith name ''.''"
  shows "keepItem (name @ ''.7z'', isd)"
proof -
  have a: "\<not> startsWith (name @ ''.7z'') ''.''"
    using assms by (cases name) (auto simp: startsWith_def)
  have b: "\<not> endsWith (name @ ''.7z'') ''.ts''"
    by (simp add: endsWith_def suffix_def)
  show ?thesis
    using a b by (simp add: keepItem_def)
qed

text \<open>A path that is not there and is not the archive of the item is not there afterwards.\<close>

lemma processItem_absent:
  assumes "\<not> fileExists fs q" and "q \<noteq> join cwd (fst item @ ''.7z'')"
  shows "\<not> fileExists (fs_of (processItem z cwd fs item)) q"
proof (cases "fileExists fs (join cwd (fst item @ ''.7z''))")
  case True
  then show ?thesis using assms by (simp add: processItem_skip)
next
  case False
  let ?p = "join cwd (fst item)"
  let ?out = "join cwd (fst item @ ''.7z'')"
  let ?fs1 = "tool_output fs ?out (snd (z fs ?p ?out))"
  have l1: "lookup ?fs1 q = None"
    using assms by (simp add: lookup_tool_output_other fileExists_def)
  have l2: "lookup (fs_of (deleteItem ?fs1 ?p (snd item))) q = None"
    using l1
    by (auto simp: deleteItem_def remove_def lookup_filter_prefix
        split: sum.splits option.splits if_splits)
  show ?thesis
    using False l1 l2 by (simp add: processItem_new Let_def fileExists_def)
qed

text \<open>
  A loop that completes has run the archiver on every item that had no archive, and has
  removed the item when the archiver exited with status zero.
\<close>

lemma processItem_spawns:
  assumes "\<not> fileExists fs (join cwd (fst item @ ''.7z''))"
    and "status_of (processItem z cwd fs item) = Done"
  shows "\<exists>ok. Spawn ''7z'' (sevenZip_args (join cwd (fst item)) (join cwd (fst item @ ''.7z''))) ok
            \<in> set (events (processItem z cwd fs item)) \<and>
          (ok \<longrightarrow> Remove (join cwd (fst item)) (snd item) True
                   \<in> set (events (processItem z cwd fs item)))"
  using assms
  by (auto simp: processItem_new Let_def deleteItem_events split: if_splits)

lemma processItems_spawns:
  assumes "distinct (map fst items)"
  shows "status_of (processItems z cwd fs items) = Done \<Longrightarrow> item \<in> set items \<Longrightarrow>
         \<not> fileExists fs (join cwd (fst item @ ''.7z'')) \<Longrightarrow>
         \<exists>ok. Spawn ''7z'' (sevenZip_args (join cwd (fst item)) (join cwd (fst item @ ''.7z''))) ok
            \<in> set (events (processItems z cwd fs items)) \<and>
          (ok \<longrightarrow> Remove (join cwd (fst item)) (snd item) True
                   \<in> set (events (processItems z cwd fs items)))"
  using assms
proof (induction items arbitrary: fs)
  case Nil
  then show ?case by simp
next
  case (Cons i items)
  let ?r = "processItem z cwd fs i"
  let ?k = "\<lambda>fs1. processItems z cwd fs1 items"
  note parts = andThen_Done_parts [of ?r ?k]
  have dn: "status_of (andThen ?r ?k) = Done"
    using Cons.prems(1) by simp
  have ev: "events (processItems z cwd fs (i # items)) = events ?r @ events (?k (fs_of ?r))"
    using parts(4) [OF dn] by simp
  show ?case
  proof (cases "item = i")
    case True
    from processItem_spawns [OF _ parts(1) [OF dn]] Cons.prems(3) True
    show ?thesis unfolding ev by auto
  next
    case False
    with Cons.prems(2) have mem: "item \<in> set items" by simp
    have "fst i \<notin> fst ` set items" using Cons.prems(4) by simp
    with mem have ne: "fst item \<noteq> fst i" by (metis imageI)
    have ab: "\<not> fileExists (fs_of ?r) (join cwd (fst item @ ''.7z''))"
      using Cons.prems(3) ne by (intro processItem_absent) simp_all
    have d: "distinct (map fst items)" using Cons.prems(4) by simp
    from Cons.IH [OF parts(2) [OF dn] mem ab d]
    show ?thesis unfolding ev by auto
  qed
qed

section \<open>Lemmas on the rename script\<close>

lemma lookup_append_new:
  "lookup fs k = None \<Longrightarrow> lookup (fs @ [(k, v)]) k = Some v"
  by (simp add: lookup_def map_add_def)

lemma mkdir_from_creates:
  "mkdir_from fs d xs = Some fs' \<Longrightarrow> xs \<noteq> [] \<Longrightarrow> lookup fs' (d @ xs) = Some D"
proof (induction xs arbitrary: fs d)
  case Nil
  then show ?case by simp
next
  case (Cons x xs)
  show ?case
  proof (cases xs)
    case Nil
    show ?thesis
    proof (cases "lookup fs (d @ [x])")
      case None
      then show ?thesis
        using Cons.prems Nil by (auto simp: lookup_append_new)
    next
      case (Some node)
      then show ?thesis
        using Cons.prems Nil by (cases node) auto
    qed
  next
    case (Cons y ys)
    have step: "\<exists>fs1. mkdir_from fs1 (d @ [x]) xs = Some fs'"
      using Cons.prems(1) by (auto split: option.splits fnode.splits)
    then obtain fs1 where "mkdir_from fs1 (d @ [x]) xs = Some fs'" ..
    from Cons.IH [OF this] Cons show ?thesis by simp
  qed
qed

text \<open>Once the target directory has been made sure of, making sure again changes nothing.\<close>

lemma ensureDirectoryExists_twice:
  "fs_of (ensureDirectoryExists (fs_of (ensureDirectoryExists fs td)) td) =
   fs_of (ensureDirectoryExists fs td)"
proof (cases "fileExists fs td")
  case True
  then show ?thesis by (simp add: ensureDirectoryExists_def)
next
  case False
  show ?thesis
  proof (cases "mkdir_recursive fs td")
    case None
    then show ?thesis using False by (simp add: ensureDirectoryExists_def)
  next
    case (Some fs')
    have fs1: "fs_of (ensureDirectoryExists fs td) = fs'"
      using False Some by (simp add: ensureDirectoryExists_def)
    show ?thesis
    proof (cases "td = []")
      case True
      then have "fs' = fs" using Some by (simp add: mkdir_recursive_def)
      then show ?thesis using fs1 by simp
    next
      case ne: False
      from mkdir_from_creates [of fs "[]" td fs'] Some ne have "fileExists fs' td"
        by (simp add: mkdir_recursive_def fileExists_def)
      then show ?thesis
        unfolding fs1 by (simp add: ensureDirectoryExists_def)
    qed
  qed
qed

text \<open>The script leaves the file system that making sure of the target directory leaves.\<close>

lemma file_copy_and_rename_fs:
  "fs_of (file_copy_and_rename H n fs sp tp exts mv) = fs_of (ensureDirectoryExists fs tp)"
  by (simp add: file_copy_and_rename_def fs_of_andThen copy_scan_unchanged(1))

lemma file_copy_and_rename_twice:
  "fs_of (file_copy_and_rename H m (fs_of (file_copy_and_rename H n fs sp tp exts mv)) sp tp exts mv)
     = fs_of (file_copy_and_rename H n fs sp tp exts mv)"
  by (simp add: file_copy_and_rename_fs ensureDirectoryExists_twice)

section \<open>When a source is deleted\<close>

text \<open>
  C1. The claim that a source is deleted only once its artifact has been verified to exist
  and to be non-empty fails in the archive variant. An archiver that exits with status
  zero and leaves no archive has its source removed: the exit status is all that the
  script looks at.
\<close>

theorem deletion_without_verified_artifact_counterexample:
  "Remove [''a''] False True \<in> set (events (processItem toolNothing [] fsA (''a'', False)))
   \<and> fs_of (processItem toolNothing [] fsA (''a'', False)) = [([], D)]
   \<and> compress_and_delete toolNothing fsA [] =
       (Done, [([], D)],
        [ReadDir [], Stat [''a.7z''] False, Log (Compressing [''a''] [''a.7z'']),
         Spawn ''7z'' (sevenZip_args [''a''] [''a.7z'']) True, Log (CompressOk [''a.7z'']),
         Log (Deleting [''a'']), Remove [''a''] False True, Log (Deleted [''a''])])"
  by code_simp

text \<open>
  C1, amended. In the archive variant a removal of the source is attempted exactly when
  the archiver has exited with status zero for that item, and it comes after that exit in
  the order of effects; the artifact is not looked at. In the transcode variant a removal
  of the source is attempted exactly when ffmpeg has exited with status zero and the stat
  of the output has shown a size above zero, it comes after both, and after a removal the
  output is there and is not empty. No run of the rename scan removes anything.
\<close>

theorem deletion_only_after_success:
  "((\<exists>r ok. Remove qa r ok \<in> set (events (processItem z cwd fs item))) =
      (qa = join cwd (fst item) \<and> \<not> fileExists fs (join cwd (fst item @ ''.7z'')) \<and>
       fst (z fs (join cwd (fst item)) (join cwd (fst item @ ''.7z'')))))
   \<and> (Remove qa ra oka \<in> set (events (processItem z cwd fs item)) \<longrightarrow>
        (\<exists>post. events (processItem z cwd fs item) =
           [Stat (join cwd (fst item @ ''.7z'')) False,
            Log (Compressing (join cwd (fst item)) (join cwd (fst item @ ''.7z''))),
            Spawn ''7z'' (sevenZip_args (join cwd (fst item)) (join cwd (fst item @ ''.7z'')))
              True,
            Log (CompressOk (join cwd (fst item @ ''.7z''))),
            Log (Deleting (join cwd (fst item))),
            Remove (join cwd (fst item)) (snd item) oka] @ post))
   \<and> ((\<exists>r ok. Remove qt r ok \<in> set (events (convertVideoFile f fs inp))) =
      (qt = inp \<and> supported inp \<and> \<not> fileExists fs (outputPath_of inp) \<and>
       fst (f fs inp (outputPath_of inp)) \<and>
       (\<exists>n. lookup (tool_output fs (outputPath_of inp) (snd (f fs inp (outputPath_of inp))))
               (outputPath_of inp) = Some n \<and> 0 < node_size n)))
   \<and> (Remove qt rt okt \<in> set (events (convertVideoFile f fs inp)) \<longrightarrow>
        (\<exists>n post. 0 < n \<and> events (convertVideoFile f fs inp) =
           [Stat (outputPath_of inp) False, Log (Converting inp (outputPath_of inp)),
            Spawn ''ffmpeg'' (ffmpeg_args inp (outputPath_of inp)) True,
            Log (ConvertOk (outputPath_of inp)), StatSize (outputPath_of inp) (Some n),
            Log (DeletingSource inp), Remove inp False okt] @ post))
   \<and> (Remove qt rt True \<in> set (events (convertVideoFile f fs inp)) \<and> fileExists fs inp \<longrightarrow>
        (\<exists>n. lookup (fs_of (convertVideoFile f fs inp)) (outputPath_of inp) = Some n \<and>
             0 < node_size n))
   \<and> Remove qr rr okr \<notin> set (events (scanAndCopyFiles H n fs d td exts mv))"
proof -
  have rename: "Remove qr rr okr \<notin> set (events (scanAndCopyFiles H n fs d td exts mv))"
    using copy_scan_quiet [of H n fs d td exts mv] by force
  show ?thesis
    using processItem_Remove_iff [of qa z cwd fs item]
      processItem_Remove_order [of qa ra oka z cwd fs item]
      convertVideoFile_Remove_iff [of qt f fs inp]
      convertVideoFile_Remove_order [of qt rt okt f fs inp]
      convertVideoFile_removed_artifact [of qt rt f fs inp]
      rename
    by (intro conjI impI) blast+
qed

theorem deletion_only_after_success_witness:
  "(\<exists>post. events (processItem toolOk [] fsA (''a'', False)) =
           [Stat [''a.7z''] False, Log (Compressing [''a''] [''a.7z'']),
            Spawn ''7z'' (sevenZip_args [''a''] [''a.7z'']) True,
            Log (CompressOk [''a.7z'']), Log (Deleting [''a'']),
            Remove [''a''] False True] @ post)
   \<and> (\<exists>n post. 0 < n \<and> events (convertVideoFile toolOk fsV [''a.mov'']) =
           [Stat [''a.webm''] False, Log (Converting [''a.mov''] [''a.webm'']),
            Spawn ''ffmpeg'' (ffmpeg_args [''a.mov''] [''a.webm'']) True,
            Log (ConvertOk [''a.webm'']), StatSize [''a.webm''] (Some n),
            Log (DeletingSource [''a.mov'']), Remove [''a.mov''] False True] @ post)
   \<and> (\<exists>n. lookup (fs_of (convertVideoFile toolOk fsV [''a.mov''])) [''a.webm''] = Some n \<and>
            0 < node_size n)"
proof -
  have a: "Remove [''a''] False True \<in> set (events (processItem toolOk [] fsA (''a'', False)))"
    by code_simp
  have t: "Remove [''a.mov''] False True \<in> set (events (convertVideoFile toolOk fsV [''a.mov'']))"
    "fileExists fsV [''a.mov'']"
    by code_simp+
  have j: "join [] (fst (''a'', False)) = [''a'']" "join [] (fst (''a'', False) @ ''.7z'') = [''a.7z'']"
    "snd (''a'', False) = False" "outputPath_of [''a.mov''] = [''a.webm'']"
    by code_simp+
  note c2 = conjunct2
  have 1: "\<exists>post. events (processItem toolOk [] fsA (''a'', False)) =
           [Stat [''a.7z''] False, Log (Compressing [''a''] [''a.7z'']),
            Spawn ''7z'' (sevenZip_args [''a''] [''a.7z'']) True,
            Log (CompressOk [''a.7z'']), Log (Deleting [''a'']),
            Remove [''a''] False True] @ post"
    using deletion_only_after_success [where qa = "[''a'']" and ra = False and oka = True
        and z = toolOk and cwd = "[]" and fs = fsA and item = "(''a'', False)",
        THEN c2, THEN conjunct1, THEN mp, OF a]
    unfolding j .
  have 2: "\<exists>n post. 0 < n \<and> events (convertVideoFile toolOk fsV [''a.mov'']) =
           [Stat [''a.webm''] False, Log (Converting [''a.mov''] [''a.webm'']),
            Spawn ''ffmpeg'' (ffmpeg_args [''a.mov''] [''a.webm'']) True,
            Log (ConvertOk [''a.webm'']), StatSize [''a.webm''] (Some n),
            Log (DeletingSource [''a.mov'']), Remove [''a.mov''] False True] @ post"
    using deletion_only_after_success [where qt = "[''a.mov'']" and rt = False and okt = True
        and f = toolOk and fs = fsV and inp = "[''a.mov'']",
        THEN c2, THEN c2, THEN c2, THEN conjunct1, THEN mp, OF t(1)]
    unfolding j .
  have 3: "\<exists>n. lookup (fs_of (convertVideoFile toolOk fsV [''a.mov''])) [''a.webm''] = Some n \<and>
            0 < node_size n"
    using deletion_only_after_success [where qt = "[''a.mov'']" and rt = False
        and f = toolOk and fs = fsV and inp = "[''a.mov'']",
        THEN c2, THEN c2, THEN c2, THEN c2, THEN conjunct1, THEN mp, OF conjI [OF t]]
    unfolding j .
  from 1 2 3 show ?thesis
    by (intro conjI)
qed

section \<open>A failed item\<close>

text \<open>
  C2. In the transcode variant a failed conversion is thrown as an exception that nothing
  catches: the scan ends at that file, and the entries after it are not processed. Here
  the conversion of \<open>a.mov\<close> fails and \<open>b.avi\<close> is never looked at.
\<close>

theorem failed_conversion_aborts_scan_counterexample:
  "readDir fsV [] = Some [(''a.mov'', False), (''b.avi'', False)]
   \<and> scanDirectoryRecursively toolFail 1 fsV [] =
       (Threw FfmpegFailed, fsV,
        [Log (Scanning []), ReadDir [], Stat [''a.webm''] False,
         Log (Converting [''a.mov''] [''a.webm'']),
         Spawn ''ffmpeg'' (ffmpeg_args [''a.mov''] [''a.webm'']) False])"
  by code_simp

text \<open>
  C2, amended. In the archive variant an item whose archiver exits with a non-zero status
  is recorded as failed, its source is left as it was, and the loop goes on with the
  items after it. In the transcode variant a conversion that fails (a non-zero exit, or an
  empty output) removes nothing and leaves its source as it was, but it ends the batch:
  the loop over the listing returns the failure without processing the entries after it,
  and a failure inside a subdirectory ends the loop of the parent directory in the same way.
\<close>

theorem failure_isolation_by_variant:
  "(\<not> fileExists fs (join cwd (fst item @ ''.7z'')) \<and>
    \<not> fst (z fs (join cwd (fst item)) (join cwd (fst item @ ''.7z''))) \<longrightarrow>
      processItems z cwd fs (item # items) =
        after [Stat (join cwd (fst item @ ''.7z'')) False,
               Log (Compressing (join cwd (fst item)) (join cwd (fst item @ ''.7z''))),
               Spawn ''7z'' (sevenZip_args (join cwd (fst item)) (join cwd (fst item @ ''.7z'')))
                 False,
               Log CompressFailed, Log (NotDeleted (join cwd (fst item)))]
          (processItems z cwd
             (tool_output fs (join cwd (fst item @ ''.7z''))
                (snd (z fs (join cwd (fst item)) (join cwd (fst item @ ''.7z'')))))
             items)
      \<and> lookup (tool_output fs (join cwd (fst item @ ''.7z''))
                  (snd (z fs (join cwd (fst item)) (join cwd (fst item @ ''.7z'')))))
            (join cwd (fst item)) = lookup fs (join cwd (fst item)))
   \<and> (supported inp \<and> \<not> fileExists fs (outputPath_of inp) \<and>
       \<not> fst (f fs inp (outputPath_of inp)) \<longrightarrow>
         status_of (convertVideoFile f fs inp) = Threw FfmpegFailed)
   \<and> (status_of (convertVideoFile f fs inp) = Threw e \<and> (e = FfmpegFailed \<or> e = EmptyOutput) \<and>
       fileExists fs inp \<longrightarrow>
         (\<forall>q r ok. Remove q r ok \<notin> set (events (convertVideoFile f fs inp))) \<and>
         lookup (fs_of (convertVideoFile f fs inp)) inp = lookup fs inp)
   \<and> (\<not> startsWith name ''.'' \<and> supported (join d name) \<and>
       status_of (convertVideoFile f fs (join d name)) \<noteq> Done \<longrightarrow>
         scanEntries f n fs d ((name, False) # es) = convertVideoFile f fs (join d name))
   \<and> (\<not> startsWith name ''.'' \<and>
       status_of (scanDirectoryRecursively f n fs (join d name)) \<noteq> Done \<longrightarrow>
         scanEntries f n fs d ((name, True) # es) =
           scanDirectoryRecursively f n fs (join d name))"
proof (intro conjI impI)
  assume a: "\<not> fileExists fs (join cwd (fst item @ ''.7z'')) \<and>
    \<not> fst (z fs (join cwd (fst item)) (join cwd (fst item @ ''.7z'')))"
  then show "processItems z cwd fs (item # items) =
        after [Stat (join cwd (fst item @ ''.7z'')) False,
               Log (Compressing (join cwd (fst item)) (join cwd (fst item @ ''.7z''))),
               Spawn ''7z'' (sevenZip_args (join cwd (fst item)) (join cwd (fst item @ ''.7z'')))
                 False,
               Log CompressFailed, Log (NotDeleted (join cwd (fst item)))]
          (processItems z cwd
             (tool_output fs (join cwd (fst item @ ''.7z''))
                (snd (z fs (join cwd (fst item)) (join cwd (fst item @ ''.7z'')))))
             items)"
    by (intro processItems_failed_item) simp_all
  show "lookup (tool_output fs (join cwd (fst item @ ''.7z''))
                  (snd (z fs (join cwd (fst item)) (join cwd (fst item @ ''.7z'')))))
            (join cwd (fst item)) = lookup fs (join cwd (fst item))"
    by (rule archive_source_untouched)
next
  assume "supported inp \<and> \<not> fileExists fs (outputPath_of inp) \<and>
       \<not> fst (f fs inp (outputPath_of inp))"
  then show "status_of (convertVideoFile f fs inp) = Threw FfmpegFailed"
    by (simp add: convertVideoFile_nonzero_exit)
next
  assume a: "status_of (convertVideoFile f fs inp) = Threw e \<and>
      (e = FfmpegFailed \<or> e = EmptyOutput) \<and> fileExists fs inp"
  then have s: "status_of (convertVideoFile f fs inp) = Threw e"
    and e: "e = FfmpegFailed \<or> e = EmptyOutput" and x: "fileExists fs inp"
    by simp_all
  show "\<forall>q r ok. Remove q r ok \<notin> set (events (convertVideoFile f fs inp))"
    using convertVideoFile_failed(1) [OF s e] by blast
  have "outputPath_of inp \<noteq> inp"
    using convertVideoFile_failed(3) [OF s e] x by auto
  then show "lookup (fs_of (convertVideoFile f fs inp)) inp = lookup fs inp"
    by (simp add: convertVideoFile_failed(2) [OF s e] lookup_tool_output_other)
next
  assume "\<not> startsWith name ''.'' \<and> supported (join d name) \<and>
       status_of (convertVideoFile f fs (join d name)) \<noteq> Done"
  then show "scanEntries f n fs d ((name, False) # es) = convertVideoFile f fs (join d name)"
    by (simp add: Let_def andThen_def)
next
  assume "\<not> startsWith name ''.'' \<and>
       status_of (scanDirectoryRecursively f n fs (join d name)) \<noteq> Done"
  then show "scanEntries f n fs d ((name, True) # es) =
           scanDirectoryRecursively f n fs (join d name)"
    by (simp add: Let_def andThen_def)
qed


theorem failure_isolation_by_variant_witness:
  "processItems toolFailA [] fsAB [(''a'', False), (''b'', False)] =
     (Done, [([], D), ([''a''], F [1]), ([''b.7z''], F [7])],
      [Stat [''a.7z''] False, Log (Compressing [''a''] [''a.7z'']),
       Spawn ''7z'' (sevenZip_args [''a''] [''a.7z'']) False,
       Log CompressFailed, Log (NotDeleted [''a'']),
       Stat [''b.7z''] False, Log (Compressing [''b''] [''b.7z'']),
       Spawn ''7z'' (sevenZip_args [''b''] [''b.7z'']) True,
       Log (CompressOk [''b.7z'']), Log (Deleting [''b'']), Remove [''b''] False True,
       Log (Deleted [''b''])])
   \<and> status_of (convertVideoFile toolFail fsV [''a.mov'']) = Threw FfmpegFailed
   \<and> (\<forall>q r ok. Remove q r ok \<notin> set (events (convertVideoFile toolFail fsV [''a.mov''])))
   \<and> lookup (fs_of (convertVideoFile toolFail fsV [''a.mov''])) [''a.mov''] = Some (F [1, 2])
   \<and> scanEntries toolFail 0 fsV [] [(''a.mov'', False), (''b.avi'', False)] =
       convertVideoFile toolFail fsV [''a.mov'']
   \<and> scanEntries toolFail 1 fsS [] [(''sub'', True), (''z.avi'', False)] =
       scanDirectoryRecursively toolFail 1 fsS [''sub'']"
proof -
  note c2 = conjunct2
  have j: "join [] ''a.mov'' = [''a.mov'']" "join [] ''sub'' = [''sub'']"
    by code_simp+
  have a: "\<not> fileExists fsAB (join [] (fst (''a'', False) @ ''.7z'')) \<and>
      \<not> fst (toolFailA fsAB (join [] (fst (''a'', False))) (join [] (fst (''a'', False) @ ''.7z'')))"
    by code_simp
  have ar: "after [Stat (join [] (fst (''a'', False) @ ''.7z'')) False,
               Log (Compressing (join [] (fst (''a'', False))) (join [] (fst (''a'', False) @ ''.7z''))),
               Spawn ''7z'' (sevenZip_args (join [] (fst (''a'', False)))
                 (join [] (fst (''a'', False) @ ''.7z''))) False,
               Log CompressFailed, Log (NotDeleted (join [] (fst (''a'', False))))]
          (processItems toolFailA []
             (tool_output fsAB (join [] (fst (''a'', False) @ ''.7z''))
                (snd (toolFailA fsAB (join [] (fst (''a'', False)))
                   (join [] (fst (''a'', False) @ ''.7z'')))))
             [(''b'', False)]) =
     (Done, [([], D), ([''a''], F [1]), ([''b.7z''], F [7])],
      [Stat [''a.7z''] False, Log (Compressing [''a''] [''a.7z'']),
       Spawn ''7z'' (sevenZip_args [''a''] [''a.7z'']) False,
       Log CompressFailed, Log (NotDeleted [''a'']),
       Stat [''b.7z''] False, Log (Compressing [''b''] [''b.7z'']),
       Spawn ''7z'' (sevenZip_args [''b''] [''b.7z'']) True,
       Log (CompressOk [''b.7z'']), Log (Deleting [''b'']), Remove [''b''] False True,
       Log (Deleted [''b''])])"
    by code_simp
  have 1: "processItems toolFailA [] fsAB [(''a'', False), (''b'', False)] =
     (Done, [([], D), ([''a''], F [1]), ([''b.7z''], F [7])],
      [Stat [''a.7z''] False, Log (Compressing [''a''] [''a.7z'']),
       Spawn ''7z'' (sevenZip_args [''a''] [''a.7z'']) False,
       Log CompressFailed, Log (NotDeleted [''a'']),
       Stat [''b.7z''] False, Log (Compressing [''b''] [''b.7z'']),
       Spawn ''7z'' (sevenZip_args [''b''] [''b.7z'']) True,
       Log (CompressOk [''b.7z'']), Log (Deleting [''b'']), Remove [''b''] False True,
       Log (Deleted [''b''])])"
    using failure_isolation_by_variant [where z = toolFailA and cwd = "[]" and fs = fsAB
        and item = "(''a'', False)" and items = "[(''b'', False)]",
        THEN conjunct1, THEN mp, OF a, THEN conjunct1]
    unfolding ar .
  have t: "supported [''a.mov''] \<and> \<not> fileExists fsV (outputPath_of [''a.mov'']) \<and>
       \<not> fst (toolFail fsV [''a.mov''] (outputPath_of [''a.mov'']))"
    by code_simp
  have 2: "status_of (convertVideoFile toolFail fsV [''a.mov'']) = Threw FfmpegFailed"
    using failure_isolation_by_variant [where f = toolFail and fs = fsV and inp = "[''a.mov'']",
        THEN c2, THEN conjunct1, THEN mp, OF t] .
  have x: "fileExists fsV [''a.mov'']" and l: "lookup fsV [''a.mov''] = Some (F [1, 2])"
    by code_simp+
  have 3: "(\<forall>q r ok. Remove q r ok \<notin> set (events (convertVideoFile toolFail fsV [''a.mov''])))
      \<and> lookup (fs_of (convertVideoFile toolFail fsV [''a.mov''])) [''a.mov''] = Some (F [1, 2])"
    using failure_isolation_by_variant [where f = toolFail and fs = fsV and inp = "[''a.mov'']"
        and e = FfmpegFailed, THEN c2, THEN c2, THEN conjunct1, THEN mp] 2 x
    unfolding l by blast
  have s: "\<not> startsWith ''a.mov'' ''.'' \<and> supported (join [] ''a.mov'') \<and>
       status_of (convertVideoFile toolFail fsV (join [] ''a.mov'')) \<noteq> Done"
    by code_simp
  have 4: "scanEntries toolFail 0 fsV [] [(''a.mov'', False), (''b.avi'', False)] =
       convertVideoFile toolFail fsV [''a.mov'']"
    using failure_isolation_by_variant [where f = toolFail and fs = fsV and name = "''a.mov''"
        and d = "[]" and n = 0 and es = "[(''b.avi'', False)]",
        THEN c2, THEN c2, THEN c2, THEN conjunct1, THEN mp, OF s]
    unfolding j .
  have u: "\<not> startsWith ''sub'' ''.'' \<and>
       status_of (scanDirectoryRecursively toolFail 1 fsS (join [] ''sub'')) \<noteq> Done"
    by code_simp
  have 5: "scanEntries toolFail 1 fsS [] [(''sub'', True), (''z.avi'', False)] =
       scanDirectoryRecursively toolFail 1 fsS [''sub'']"
    using failure_isolation_by_variant [where f = toolFail and fs = fsS and name = "''sub''"
        and d = "[]" and n = 1 and es = "[(''z.avi'', False)]",
        THEN c2, THEN c2, THEN c2, THEN c2, THEN mp, OF u]
    unfolding j .
  from 1 2 3 4 5 show ?thesis
    by (intro conjI) simp_all
qed

section \<open>Running the batch again\<close>

text \<open>
  C3. In the archive variant the second of two runs is not without effect. The first run
  turns \<open>a\<close> into \<open>a.7z\<close>; the second run finds \<open>a.7z\<close> in the listing, finds no
  \<open>a.7z.7z\<close>, and so archives and removes \<open>a.7z\<close>.
\<close>

theorem second_archive_run_counterexample:
  "compress_and_delete toolOk fsA [] =
     (Done, [([], D), ([''a.7z''], F [7])],
      [ReadDir [], Stat [''a.7z''] False, Log (Compressing [''a''] [''a.7z'']),
       Spawn ''7z'' (sevenZip_args [''a''] [''a.7z'']) True, Log (CompressOk [''a.7z'']),
       Log (Deleting [''a'']), Remove [''a''] False True, Log (Deleted [''a''])])
   \<and> compress_and_delete toolOk [([], D), ([''a.7z''], F [7])] [] =
     (Done, [([], D), ([''a.7z.7z''], F [7])],
      [ReadDir [], Stat [''a.7z.7z''] False, Log (Compressing [''a.7z''] [''a.7z.7z'']),
       Spawn ''7z'' (sevenZip_args [''a.7z''] [''a.7z.7z'']) True,
       Log (CompressOk [''a.7z.7z'']), Log (Deleting [''a.7z'']),
       Remove [''a.7z''] False True, Log (Deleted [''a.7z''])])"
  by code_simp

text \<open>
  C3, amended. In the transcode variant, after a first run that completes on a well-formed
  file system, a second run changes nothing: the file system it leaves is the one the
  first run left, and none of its effects spawns a program, copies, makes a directory or
  removes anything. In the rename variant a second run of the script leaves the file
  system as the first run left it; a scan leaves the file system as it found it, and none
  of its effects is a change. In the archive variant the archive of an item passes the
  filter whenever the item does, and a run that completes has run the archiver on every
  entry of its list that had no archive of its own, and has removed the entry when the
  archiver exited with status zero: the artifacts of one run are items of the next.
\<close>

theorem second_run_changes_nothing:
  "(tree fs \<and> status_of (scanDirectoryRecursively f n fs d) = Done \<longrightarrow>
      fs_of (scanDirectoryRecursively g m (fs_of (scanDirectoryRecursively f n fs d)) d)
        = fs_of (scanDirectoryRecursively f n fs d) \<and>
      (\<forall>e \<in> set (events (scanDirectoryRecursively g m
                 (fs_of (scanDirectoryRecursively f n fs d)) d)). \<not> changes e))
   \<and> fs_of (file_copy_and_rename H m (fs_of (file_copy_and_rename H n fs sp tp exts mv))
              sp tp exts mv)
        = fs_of (file_copy_and_rename H n fs sp tp exts mv)
   \<and> fs_of (scanAndCopyFiles H n fs d td exts mv) = fs
   \<and> filter changes (events (scanAndCopyFiles H n fs d td exts mv)) = []
   \<and> (name \<noteq> [] \<and> \<not> startsWith name ''.'' \<longrightarrow> keepItem (name @ ''.7z'', isd))
   \<and> (distinct (map fst fs) \<and> readDir fs cwd = Some entries \<and>
       item \<in> set (collectItems entries) \<and>
       \<not> fileExists fs (join cwd (fst item @ ''.7z'')) \<and>
       status_of (compress_and_delete z fs cwd) = Done \<longrightarrow>
       (\<exists>ok. Spawn ''7z'' (sevenZip_args (join cwd (fst item)) (join cwd (fst item @ ''.7z''))) ok
                \<in> set (events (compress_and_delete z fs cwd)) \<and>
             (ok \<longrightarrow> Remove (join cwd (fst item)) (snd item) True
                      \<in> set (events (compress_and_delete z fs cwd)))))"
proof (intro conjI impI)
  assume "tree fs \<and> status_of (scanDirectoryRecursively f n fs d) = Done"
  then have t: "tree fs" and dn: "status_of (scanDirectoryRecursively f n fs d) = Done"
    by simp_all
  from transcode_twice [OF t dn, of g m]
  show "fs_of (scanDirectoryRecursively g m (fs_of (scanDirectoryRecursively f n fs d)) d)
        = fs_of (scanDirectoryRecursively f n fs d)"
    and "\<forall>e \<in> set (events (scanDirectoryRecursively g m
                 (fs_of (scanDirectoryRecursively f n fs d)) d)). \<not> changes e"
    by simp_all
next
  show "fs_of (file_copy_and_rename H m (fs_of (file_copy_and_rename H n fs sp tp exts mv))
              sp tp exts mv)
        = fs_of (file_copy_and_rename H n fs sp tp exts mv)"
    by (rule file_copy_and_rename_twice)
next
  show "fs_of (scanAndCopyFiles H n fs d td exts mv) = fs"
    by (rule copy_scan_unchanged(1))
next
  show "filter changes (events (scanAndCopyFiles H n fs d td exts mv)) = []"
    using copy_scan_quiet [of H n fs d td exts mv] by (simp add: filter_empty_conv)
next
  assume "name \<noteq> [] \<and> \<not> startsWith name ''.''"
  then show "keepItem (name @ ''.7z'', isd)"
    by (simp add: keepItem_artifact)
next
  assume a: "distinct (map fst fs) \<and> readDir fs cwd = Some entries \<and>
       item \<in> set (collectItems entries) \<and>
       \<not> fileExists fs (join cwd (fst item @ ''.7z'')) \<and>
       status_of (compress_and_delete z fs cwd) = Done"
  then have r: "readDir fs cwd = Some entries" by simp
  have c: "compress_and_delete z fs cwd =
      after [ReadDir cwd] (processItems z cwd fs (collectItems entries))"
    using r by (simp add: compress_and_delete_def)
  have d: "distinct (map fst (collectItems entries))"
    using readDir_names_distinct [of fs cwd entries] a
    by (simp add: collectItems_def distinct_map_filter)
  have dn: "status_of (processItems z cwd fs (collectItems entries)) = Done"
    using a unfolding c by simp
  from processItems_spawns [OF d dn] a
  obtain ok where
    "Spawn ''7z'' (sevenZip_args (join cwd (fst item)) (join cwd (fst item @ ''.7z''))) ok
       \<in> set (events (processItems z cwd fs (collectItems entries)))"
    "ok \<longrightarrow> Remove (join cwd (fst item)) (snd item) True
       \<in> set (events (processItems z cwd fs (collectItems entries)))"
    by blast
  then show "\<exists>ok. Spawn ''7z'' (sevenZip_args (join cwd (fst item)) (join cwd (fst item @ ''.7z''))) ok
                \<in> set (events (compress_and_delete z fs cwd)) \<and>
             (ok \<longrightarrow> Remove (join cwd (fst item)) (snd item) True
                      \<in> set (events (compress_and_delete z fs cwd)))"
    unfolding c by (auto simp: events_after)
qed

theorem second_run_changes_nothing_witness:
  "tree fsV
   \<and> scanDirectoryRecursively toolOk 2 fsV [] =
       (Done, [([], D), ([''a.webm''], F [7]), ([''b.webm''], F [7])],
        events (scanDirectoryRecursively toolOk 2 fsV []))
   \<and> fs_of (scanDirectoryRecursively toolOk 2 [([], D), ([''a.webm''], F [7]), ([''b.webm''], F [7])] [])
       = [([], D), ([''a.webm''], F [7]), ([''b.webm''], F [7])]
   \<and> filter changes (events (scanDirectoryRecursively toolOk 2
         [([], D), ([''a.webm''], F [7]), ([''b.webm''], F [7])] [])) = []
   \<and> fs_of (file_copy_and_rename H1 2 fsD [''src''] [''new''] EXTENSIONS False)
       = fsD @ [([''new''], D)]
   \<and> fs_of (file_copy_and_rename H1 2 (fsD @ [([''new''], D)]) [''src''] [''new''] EXTENSIONS False)
       = fsD @ [([''new''], D)]
   \<and> keepItem (''a.7z'', False)
   \<and> status_of (compress_and_delete toolOk fsA2 []) = Done
   \<and> Spawn ''7z'' (sevenZip_args [''a.7z''] [''a.7z.7z'']) True
        \<in> set (events (compress_and_delete toolOk fsA2 []))
   \<and> Remove [''a.7z''] False True \<in> set (events (compress_and_delete toolOk fsA2 []))"
proof -
  note c2 = conjunct2
  have w: "tree fsV"
    by code_simp
  have st: "status_of (scanDirectoryRecursively toolOk 2 fsV []) = Done"
    by code_simp
  have fs1: "fs_of (scanDirectoryRecursively toolOk 2 fsV []) =
      [([], D), ([''a.webm''], F [7]), ([''b.webm''], F [7])]"
    by code_simp
  have run: "scanDirectoryRecursively toolOk 2 fsV [] =
       (Done, [([], D), ([''a.webm''], F [7]), ([''b.webm''], F [7])],
        events (scanDirectoryRecursively toolOk 2 fsV []))"
    using st fs1 by (cases "scanDirectoryRecursively toolOk 2 fsV []")
      (simp add: status_of_def fs_of_def events_def)
  note t = second_run_changes_nothing [where fs = fsV and d = "[]" and f = toolOk and n = 2
      and g = toolOk and m = 2, THEN conjunct1, THEN mp, OF conjI, OF w st, unfolded fs1]
  have 1: "filter changes (events (scanDirectoryRecursively toolOk 2
         [([], D), ([''a.webm''], F [7]), ([''b.webm''], F [7])] [])) = []"
    using t [THEN conjunct2] by (simp add: filter_empty_conv)
  have r1: "fs_of (file_copy_and_rename H1 2 fsD [''src''] [''new''] EXTENSIONS False)
       = fsD @ [([''new''], D)]"
    by code_simp
  note r2 = second_run_changes_nothing [where H = H1 and n = 2 and m = 2 and fs = fsD
      and sp = "[''src'']" and tp = "[''new'']" and exts = EXTENSIONS and mv = False,
      THEN c2, THEN conjunct1, unfolded r1]
  have k0: "''a'' \<noteq> [] \<and> \<not> startsWith ''a'' ''.''"
    by code_simp
  have k: "keepItem (''a.7z'', False)"
    using second_run_changes_nothing [where name = "''a''" and isd = False,
        THEN c2, THEN c2, THEN c2, THEN c2, THEN conjunct1, THEN mp, OF k0]
    by simp
  have dn: "status_of (compress_and_delete toolOk fsA2 []) = Done"
    by code_simp
  have h: "distinct (map fst fsA2) \<and> readDir fsA2 [] = Some [(''a.7z'', False)] \<and>
       (''a.7z'', False) \<in> set (collectItems [(''a.7z'', False)]) \<and>
       \<not> fileExists fsA2 (join [] (fst (''a.7z'', False) @ ''.7z'')) \<and>
       status_of (compress_and_delete toolOk fsA2 []) = Done"
    by code_simp
  have j: "join [] (fst (''a.7z'', False)) = [''a.7z'']"
    "join [] (fst (''a.7z'', False) @ ''.7z'') = [''a.7z.7z'']" "snd (''a.7z'', False) = False"
    by code_simp+
  have nf: "Spawn ''7z'' (sevenZip_args [''a.7z''] [''a.7z.7z'']) False
        \<notin> set (events (compress_and_delete toolOk fsA2 []))"
    by code_simp
  from second_run_changes_nothing [where fs = fsA2 and cwd = "[]"
      and entries = "[(''a.7z'', False)]" and item = "(''a.7z'', False)" and z = toolOk,
      THEN c2, THEN c2, THEN c2, THEN c2, THEN c2, THEN mp, OF h, unfolded j]
  obtain ok where
    s: "Spawn ''7z'' (sevenZip_args [''a.7z''] [''a.7z.7z'']) ok
          \<in> set (events (compress_and_delete toolOk fsA2 []))"
    and rm: "ok \<longrightarrow> Remove [''a.7z''] False True \<in> set (events (compress_and_delete toolOk fsA2 []))"
    by blast
  from s nf have ok: ok by (cases ok) auto
  from w run t [THEN conjunct1] 1 r1 r2 k dn s [unfolded eqTrueI [OF ok]] rm [THEN mp, OF ok]
  show ?thesis
    by (intro conjI)
qed
section \<open>Excluded entries\<close>

text \<open>
  C4. In the archive variant the filter is applied to the entries of the working directory
  only. A directory that passes it is handed to the archiver and removed as a whole: a
  hidden file and a \<open>.ts\<close> file inside it are archived and deleted with it.
\<close>

theorem nested_excluded_entries_are_removed_counterexample:
  "startsWith ''.env'' ''.'' \<and> endsWith ''run.ts'' ''.ts''
   \<and> lookup fsK [''docs'', ''.env''] = Some (F [1])
   \<and> lookup fsK [''docs'', ''run.ts''] = Some (F [2])
   \<and> compress_and_delete toolOk fsK [] =
       (Done,
        [([], D), ([''.top''], F [3]), ([''main.ts''], F [4]), ([''.git''], D),
         ([''.git'', ''config''], F [5]), ([''docs.7z''], F [7])],
        [ReadDir [], Stat [''docs.7z''] False, Log (Compressing [''docs''] [''docs.7z'']),
         Spawn ''7z'' (sevenZip_args [''docs''] [''docs.7z'']) True,
         Log (CompressOk [''docs.7z'']), Log (Deleting [''docs'']),
         Remove [''docs''] True True, Log (Deleted [''docs''])])
   \<and> lookup (fs_of (compress_and_delete toolOk fsK [])) [''docs'', ''.env''] = None
   \<and> lookup (fs_of (compress_and_delete toolOk fsK [])) [''docs'', ''run.ts''] = None"
  by code_simp

text \<open>
  C4, amended. In the two scans that walk the tree (transcode and rename), every path that
  an effect lists, reads, hands to the external program, copies from or removes lies under
  the scanned directory with no hidden component below it: an entry whose name starts with
  a dot is never transformed or deleted, and nothing beneath a hidden directory is visited.
  A removal or a conversion only ever names a file that passes the extension filter of
  the variant. In the file system the scan leaves, every node that was there and is
  hidden, lies beneath a hidden directory, or fails the extension filter is as it was.
  In the archive variant the exclusion holds for the entries of the working directory:
  every path that the run compresses or removes is an entry of the working directory whose
  name neither starts with a dot nor ends in \<open>.ts\<close>, and every node that was there and
  is such an excluded entry, or lies beneath one, is as it was. What lies inside an
  archived directory goes with the directory, whatever its name.
\<close>

theorem excluded_entries_are_left_alone:
  "(\<forall>e \<in> set (events (scanDirectoryRecursively f n fs d)).
      \<forall>p \<in> set (sources_of e). shown_under d p)
   \<and> (\<forall>q r ok. Remove q r ok \<in> set (events (scanDirectoryRecursively f n fs d)) \<longrightarrow>
         supported q)
   \<and> (\<forall>prog args ok. Spawn prog args ok \<in> set (events (scanDirectoryRecursively f n fs d)) \<longrightarrow>
         (\<exists>inp. supported inp \<and> args = ffmpeg_args inp (outputPath_of inp)))
   \<and> (\<forall>q. fileExists fs q \<and> (\<not> shown_under d q \<or> \<not> supported q) \<longrightarrow>
         lookup (fs_of (scanDirectoryRecursively f n fs d)) q = lookup fs q)
   \<and> (\<forall>e \<in> set (events (scanAndCopyFiles H n fs d td exts mv)).
        \<forall>p \<in> set (sources_of e). shown_under d p)
   \<and> (\<forall>e q t r ok. e \<in> set (events (scanAndCopyFiles H n fs d td exts mv)) \<and>
         (e = Digest q ok \<or> e = CopyFile q t ok \<or> e = Remove q r ok) \<longrightarrow> matching exts q)
   \<and> (\<forall>q. fileExists fs q \<and> (\<not> shown_under d q \<or> \<not> matching exts q) \<longrightarrow>
         lookup (fs_of (scanAndCopyFiles H n fs d td exts mv)) q = lookup fs q)
   \<and> (\<forall>e \<in> set (events (compress_and_delete z fs cwd)). \<forall>q. item_of e = Some q \<longrightarrow>
         (\<exists>name. q = join cwd name \<and> \<not> startsWith name ''.'' \<and> \<not> endsWith name ''.ts''))
   \<and> (\<forall>name q. fileExists fs q \<and> prefix (join cwd name) q \<and>
         (startsWith name ''.'' \<or> endsWith name ''.ts'') \<longrightarrow>
         lookup (fs_of (compress_and_delete z fs cwd)) q = lookup fs q)"
proof (intro conjI allI impI)
  show "\<forall>e \<in> set (events (scanDirectoryRecursively f n fs d)).
      \<forall>p \<in> set (sources_of e). shown_under d p"
    by (rule scan_sources(1))
next
  fix q r ok
  assume "Remove q r ok \<in> set (events (scanDirectoryRecursively f n fs d))"
  then show "supported q" by (rule scan_removes_supported)
next
  fix prog args ok
  assume "Spawn prog args ok \<in> set (events (scanDirectoryRecursively f n fs d))"
  then show "\<exists>inp. supported inp \<and> args = ffmpeg_args inp (outputPath_of inp)"
    by (rule scan_spawns_supported)
next
  fix q
  assume a: "fileExists fs q \<and> (\<not> shown_under d q \<or> \<not> supported q)"
  then show "lookup (fs_of (scanDirectoryRecursively f n fs d)) q = lookup fs q"
    using scan_frame(1) [of fs q fs d f n] by blast
next
  show "\<forall>e \<in> set (events (scanAndCopyFiles H n fs d td exts mv)).
        \<forall>p \<in> set (sources_of e). shown_under d p"
    by (rule copy_scan_sources(1))
next
  fix e q t r ok
  assume "e \<in> set (events (scanAndCopyFiles H n fs d td exts mv)) \<and>
         (e = Digest q ok \<or> e = CopyFile q t ok \<or> e = Remove q r ok)"
  then show "matching exts q"
    using copy_scan_sources_matching by blast
next
  fix q
  assume a: "fileExists fs q \<and> (\<not> shown_under d q \<or> \<not> matching exts q)"
  show "lookup (fs_of (scanAndCopyFiles H n fs d td exts mv)) q = lookup fs q"
    by (simp add: copy_scan_unchanged(1))
next
  show "\<forall>e \<in> set (events (compress_and_delete z fs cwd)). \<forall>q. item_of e = Some q \<longrightarrow>
         (\<exists>name. q = join cwd name \<and> \<not> startsWith name ''.'' \<and> \<not> endsWith name ''.ts'')"
    using compress_and_delete_item_of [of _ z fs cwd] by blast
next
  fix name q
  assume "fileExists fs q \<and> prefix (join cwd name) q \<and>
         (startsWith name ''.'' \<or> endsWith name ''.ts'')"
  then show "lookup (fs_of (compress_and_delete z fs cwd)) q = lookup fs q"
    using compress_and_delete_frame [of fs q cwd name z] by blast
qed

theorem excluded_entries_are_left_alone_witness:
  "shown_under [] [''sub'', ''x.MOV'']
   \<and> supported [''a.avi'']
   \<and> (\<exists>inp. supported inp \<and>
         ffmpeg_args [''sub'', ''x.MOV''] [''sub'', ''x.webm''] = ffmpeg_args inp (outputPath_of inp))
   \<and> lookup (fs_of (scanDirectoryRecursively toolOk 2 fsH [])) [''.h'', ''c.avi''] = Some (F [2])
   \<and> lookup (fs_of (scanDirectoryRecursively toolOk 2 fsH [])) [''notes.txt''] = Some (F [3])
   \<and> shown_under [''src''] [''src'', ''x.mp4'']
   \<and> matching EXTENSIONS [''src'', ''x.mp4'']
   \<and> lookup (fs_of (scanAndCopyFiles H1 2 fsC [''src''] [''out''] EXTENSIONS True))
        [''src'', ''.cache'', ''y.mp4''] = Some (F [5])
   \<and> lookup (fs_of (scanAndCopyFiles H1 2 fsC [''src''] [''out''] EXTENSIONS True))
        [''src'', ''n.txt''] = Some (F [6])
   \<and> (\<exists>name. [''docs''] = join [] name \<and> \<not> startsWith name ''.'' \<and> \<not> endsWith name ''.ts'')
   \<and> lookup (fs_of (compress_and_delete toolOk fsK [])) [''.git'', ''config''] = Some (F [5])
   \<and> lookup (fs_of (compress_and_delete toolOk fsK [])) [''main.ts''] = Some (F [4])"
proof -
  note c2 = conjunct2
  note t = excluded_entries_are_left_alone [where f = toolOk and n = 2 and fs = fsH and d = "[]"]
  note r = excluded_entries_are_left_alone [where H = H1 and n = 2 and fs = fsC
      and d = "[''src'']" and td = "[''out'']" and exts = EXTENSIONS and mv = True]
  have e1: "Remove [''sub'', ''x.MOV''] False True
      \<in> set (events (scanDirectoryRecursively toolOk 2 fsH []))"
    and p1: "[''sub'', ''x.MOV''] \<in> set (sources_of (Remove [''sub'', ''x.MOV''] False True))"
    and e2: "Remove [''a.avi''] False True \<in> set (events (scanDirectoryRecursively toolOk 2 fsH []))"
    and e3: "Spawn ''ffmpeg'' (ffmpeg_args [''sub'', ''x.MOV''] [''sub'', ''x.webm'']) True
      \<in> set (events (scanDirectoryRecursively toolOk 2 fsH []))"
    by code_simp+
  have q1: "fileExists fsH [''.h'', ''c.avi''] \<and>
      (\<not> shown_under [] [''.h'', ''c.avi''] \<or> \<not> supported [''.h'', ''c.avi''])"
    and q2: "fileExists fsH [''notes.txt''] \<and>
      (\<not> shown_under [] [''notes.txt''] \<or> \<not> supported [''notes.txt''])"
    and l1: "lookup fsH [''.h'', ''c.avi''] = Some (F [2])"
    and l2: "lookup fsH [''notes.txt''] = Some (F [3])"
    by code_simp+
  have 1: "shown_under [] [''sub'', ''x.MOV'']"
    using t [THEN conjunct1, THEN bspec, OF e1, THEN bspec, OF p1] .
  have 2: "supported [''a.avi'']"
    using t [THEN c2, THEN conjunct1, rule_format, OF e2] .
  have 3: "\<exists>inp. supported inp \<and>
      ffmpeg_args [''sub'', ''x.MOV''] [''sub'', ''x.webm''] = ffmpeg_args inp (outputPath_of inp)"
    using t [THEN c2, THEN c2, THEN conjunct1, rule_format, OF e3] .
  have 4: "lookup (fs_of (scanDirectoryRecursively toolOk 2 fsH [])) [''.h'', ''c.avi''] =
      Some (F [2])"
    using t [THEN c2, THEN c2, THEN c2, THEN conjunct1, rule_format, OF q1] unfolding l1 .
  have 5: "lookup (fs_of (scanDirectoryRecursively toolOk 2 fsH [])) [''notes.txt''] =
      Some (F [3])"
    using t [THEN c2, THEN c2, THEN c2, THEN conjunct1, rule_format, OF q2] unfolding l2 .
  have e4: "Digest [''src'', ''x.mp4''] True
      \<in> set (events (scanAndCopyFiles H1 2 fsC [''src''] [''out''] EXTENSIONS True))"
    and p4: "[''src'', ''x.mp4''] \<in> set (sources_of (Digest [''src'', ''x.mp4''] True))"
    by code_simp+
  have q3: "fileExists fsC [''src'', ''.cache'', ''y.mp4''] \<and>
      (\<not> shown_under [''src''] [''src'', ''.cache'', ''y.mp4''] \<or>
       \<not> matching EXTENSIONS [''src'', ''.cache'', ''y.mp4''])"
    and q4: "fileExists fsC [''src'', ''n.txt''] \<and>
      (\<not> shown_under [''src''] [''src'', ''n.txt''] \<or> \<not> matching EXTENSIONS [''src'', ''n.txt''])"
    and l3: "lookup fsC [''src'', ''.cache'', ''y.mp4''] = Some (F [5])"
    and l4: "lookup fsC [''src'', ''n.txt''] = Some (F [6])"
    by code_simp+
  have 6: "shown_under [''src''] [''src'', ''x.mp4'']"
    using r [THEN c2, THEN c2, THEN c2, THEN c2, THEN conjunct1, THEN bspec, OF e4,
        THEN bspec, OF p4] .
  have 7: "matching EXTENSIONS [''src'', ''x.mp4'']"
    using r [THEN c2, THEN c2, THEN c2, THEN c2, THEN c2, THEN conjunct1, rule_format,
        OF conjI [OF e4 disjI1 [OF refl]]] .
  have 8: "lookup (fs_of (scanAndCopyFiles H1 2 fsC [''src''] [''out''] EXTENSIONS True))
        [''src'', ''.cache'', ''y.mp4''] = Some (F [5])"
    using r [THEN c2, THEN c2, THEN c2, THEN c2, THEN c2, THEN c2, THEN conjunct1, rule_format,
        OF q3]
    unfolding l3 .
  have 9: "lookup (fs_of (scanAndCopyFiles H1 2 fsC [''src''] [''out''] EXTENSIONS True))
        [''src'', ''n.txt''] = Some (F [6])"
    using r [THEN c2, THEN c2, THEN c2, THEN c2, THEN c2, THEN c2, THEN conjunct1, rule_format,
        OF q4]
    unfolding l4 .
  note a = excluded_entries_are_left_alone [where z = toolOk and fs = fsK and cwd = "[]",
      THEN c2, THEN c2, THEN c2, THEN c2, THEN c2, THEN c2, THEN c2]
  have e5: "Remove [''docs''] True True \<in> set (events (compress_and_delete toolOk fsK []))"
    and i5: "item_of (Remove [''docs''] True True) = Some [''docs'']"
    by code_simp+
  have q5: "fileExists fsK [''.git'', ''config''] \<and> prefix (join [] ''.git'') [''.git'', ''config''] \<and>
      (startsWith ''.git'' ''.'' \<or> endsWith ''.git'' ''.ts'')"
    and q6: "fileExists fsK [''main.ts''] \<and> prefix (join [] ''main.ts'') [''main.ts''] \<and>
      (startsWith ''main.ts'' ''.'' \<or> endsWith ''main.ts'' ''.ts'')"
    and l5: "lookup fsK [''.git'', ''config''] = Some (F [5])"
    and l6: "lookup fsK [''main.ts''] = Some (F [4])"
    by code_simp+
  have 10: "\<exists>name. [''docs''] = join [] name \<and> \<not> startsWith name ''.'' \<and> \<not> endsWith name ''.ts''"
    using a [THEN conjunct1, THEN bspec, OF e5, THEN spec, THEN mp, OF i5] .
  have 11: "lookup (fs_of (compress_and_delete toolOk fsK [])) [''.git'', ''config''] = Some (F [5])"
    using a [THEN c2, rule_format, OF q5] unfolding l5 .
  have 12: "lookup (fs_of (compress_and_delete toolOk fsK [])) [''main.ts''] = Some (F [4])"
    using a [THEN c2, rule_format, OF q6] unfolding l6 .
  from 1 2 3 4 5 6 7 8 9 10 11 12 show ?thesis
    by (intro conjI)
qed

section \<open>An item whose target exists\<close>

text \<open>
  C5. In the archive and in the transcode variant an item whose target artifact exists
  when the item is processed ends as skipped: the result is \<open>Done\<close>, the file system is
  the one the call started from, and the effects are the existence check and the skip
  message; no program is spawned, nothing is written, the source is not removed. The
  rename variant does not get as far as its existence check: for a source file whose
  target exists, \<open>copySingleFile\<close> reads the file for the fingerprint and then ends with
  \<open>BadResource\<close>, raised by \<open>file.close()\<close>. Nothing is written and the source stays,
  but the item is not skipped: the exception ends the scan, and no run of the scan has a
  skip message among its effects.
\<close>

theorem existing_target_skipped_except_in_rename:
  "(fileExists fs (join cwd (fst item @ ''.7z'')) \<longrightarrow>
      processItem sevenZip cwd fs item =
        (Done, fs, [Stat (join cwd (fst item @ ''.7z'')) True,
                    Log (SkipExists (join cwd (fst item @ ''.7z'')))]))
   \<and> (supported p \<and> fileExists fs (outputPath_of p) \<longrightarrow>
      convertVideoFile ffmpeg fs p =
        (Done, fs, [Stat (outputPath_of p) True, Log (SkipExists (outputPath_of p))]))
   \<and> (lookup fs src = Some (F b) \<and> fileExists fs (targetPath_of (H b) src td) \<longrightarrow>
      copySingleFile H fs src td mv =
        (Threw BadResource, fs, [Log (Processing src), Digest src True, Close src False]))
   \<and> Log (SkipExists t) \<notin> set (events (scanAndCopyFiles H n fs d td exts mv))"
proof -
  have "\<forall>e \<in> set (events (scanAndCopyFiles H n fs d td exts mv)). e \<noteq> Log (SkipExists t)"
  proof (rule copy_scan_events_all(1))
    show "\<forall>fs p e. matching exts p \<longrightarrow>
        e \<in> set (events (copySingleFile H fs p td mv)) \<longrightarrow> e \<noteq> Log (SkipExists t)"
    proof (intro allI impI)
      fix fs p e
      assume "e \<in> set (events (copySingleFile H fs p td mv))"
      then show "e \<noteq> Log (SkipExists t)"
        using copySingleFile_events [of H fs p td mv] by auto
    qed
  qed simp
  then have scan: "Log (SkipExists t) \<notin> set (events (scanAndCopyFiles H n fs d td exts mv))"
    by blast
  show ?thesis
    using scan
    by (simp add: processItem_def convertVideoFile_def copySingleFile_file Let_def)
qed

theorem existing_target_skipped_except_in_rename_witness:
  "processItem toolOk [] fsW (''docs'', True) =
     (Done, fsW, [Stat [''docs.7z''] True, Log (SkipExists [''docs.7z''])])
   \<and> convertVideoFile toolOk fsW [''a.mov''] =
     (Done, fsW, [Stat [''a.webm''] True, Log (SkipExists [''a.webm''])])
   \<and> fileExists fsR (targetPath_of (H1 [4]) [''src'', ''x.mp4''] [''out''])
   \<and> copySingleFile H1 fsR [''src'', ''x.mp4''] [''out''] False =
     (Threw BadResource, fsR,
      [Log (Processing [''src'', ''x.mp4'']), Digest [''src'', ''x.mp4''] True,
       Close [''src'', ''x.mp4''] False])
   \<and> scanAndCopyFiles H1 2 fsR [''src''] [''out''] EXTENSIONS False =
     (Threw BadResource, fsR,
      [ReadDir [''src''], Log (Processing [''src'', ''x.mp4'']),
       Digest [''src'', ''x.mp4''] True, Close [''src'', ''x.mp4''] False])"
proof -
  have a: "fileExists fsW (join [] (fst (''docs'', True) @ ''.7z''))"
    by code_simp
  have b: "supported [''a.mov''] \<and> fileExists fsW (outputPath_of [''a.mov''])"
    by code_simp
  have c: "lookup fsR [''src'', ''x.mp4''] = Some (F [4]) \<and>
       fileExists fsR (targetPath_of (H1 [4]) [''src'', ''x.mp4''] [''out''])"
    by code_simp
  have o: "outputPath_of [''a.mov''] = [''a.webm'']"
    "join [] (fst (''docs'', True) @ ''.7z'') = [''docs.7z'']"
    by code_simp+
  have run: "scanAndCopyFiles H1 2 fsR [''src''] [''out''] EXTENSIONS False =
     (Threw BadResource, fsR,
      [ReadDir [''src''], Log (Processing [''src'', ''x.mp4'']),
       Digest [''src'', ''x.mp4''] True, Close [''src'', ''x.mp4''] False])"
    by code_simp
  note t = existing_target_skipped_except_in_rename [where fs = fsW and cwd = "[]"
      and item = "(''docs'', True)" and sevenZip = toolOk and p = "[''a.mov'']"
      and ffmpeg = toolOk]
  note r = existing_target_skipped_except_in_rename [where fs = fsR
      and src = "[''src'', ''x.mp4'']" and b = "[4]" and td = "[''out'']" and H = H1
      and mv = False]
  note c2 = conjunct2
  have 1: "processItem toolOk [] fsW (''docs'', True) =
     (Done, fsW, [Stat [''docs.7z''] True, Log (SkipExists [''docs.7z''])])"
    using t [THEN conjunct1, THEN mp, OF a] unfolding o .
  have 2: "convertVideoFile toolOk fsW [''a.mov''] =
     (Done, fsW, [Stat [''a.webm''] True, Log (SkipExists [''a.webm''])])"
    using t [THEN c2, THEN conjunct1, THEN mp, OF b] unfolding o .
  have 3: "copySingleFile H1 fsR [''src'', ''x.mp4''] [''out''] False =
     (Threw BadResource, fsR,
      [Log (Processing [''src'', ''x.mp4'']), Digest [''src'', ''x.mp4''] True,
       Close [''src'', ''x.mp4''] False])"
    using r [THEN c2, THEN c2, THEN conjunct1, THEN mp, OF c] .
  from 1 2 c [THEN c2] 3 run show ?thesis
    by (intro conjI)
qed

section \<open>An empty output is a failure\<close>

text \<open>
  C6. In the transcode variant, when the external process exits with status zero, the
  output is stat'ed next, and an output of size zero makes \<open>convertVideoFile\<close> throw
  (\<open>EmptyOutput\<close>): no removal is among the effects, and the source is in the file system
  afterwards as it was before.
\<close>

theorem empty_output_is_failure:
  assumes "supported p" and "fileExists fs p" and "\<not> fileExists fs (outputPath_of p)"
    and "fst (ffmpeg fs p (outputPath_of p))"
    and "lookup (tool_output fs (outputPath_of p) (snd (ffmpeg fs p (outputPath_of p))))
           (outputPath_of p) = Some n"
    and "node_size n = 0"
  shows "convertVideoFile ffmpeg fs p =
           (Threw EmptyOutput,
            tool_output fs (outputPath_of p) (snd (ffmpeg fs p (outputPath_of p))),
            [Stat (outputPath_of p) False, Log (Converting p (outputPath_of p)),
             Spawn ''ffmpeg'' (ffmpeg_args p (outputPath_of p)) True,
             Log (ConvertOk (outputPath_of p)), StatSize (outputPath_of p) (Some 0)])
         \<and> lookup (fs_of (convertVideoFile ffmpeg fs p)) p = lookup fs p"
proof -
  from assms(2,3) have ne: "p \<noteq> outputPath_of p"
    by (auto simp: fileExists_def)
  have eq: "convertVideoFile ffmpeg fs p =
           (Threw EmptyOutput,
            tool_output fs (outputPath_of p) (snd (ffmpeg fs p (outputPath_of p))),
            [Stat (outputPath_of p) False, Log (Converting p (outputPath_of p)),
             Spawn ''ffmpeg'' (ffmpeg_args p (outputPath_of p)) True,
             Log (ConvertOk (outputPath_of p)), StatSize (outputPath_of p) (Some 0)])"
    using assms by (simp add: convertVideoFile_def Let_def)
  show ?thesis
    using ne by (simp add: eq lookup_tool_output_other)
qed

theorem empty_output_is_failure_witness:
  "convertVideoFile toolEmpty fsV [''a.mov''] =
     (Threw EmptyOutput, fsV @ [([''a.webm''], F [])],
      [Stat [''a.webm''] False, Log (Converting [''a.mov''] [''a.webm'']),
       Spawn ''ffmpeg'' (ffmpeg_args [''a.mov''] [''a.webm'']) True,
       Log (ConvertOk [''a.webm'']), StatSize [''a.webm''] (Some 0)])
   \<and> lookup (fs_of (convertVideoFile toolEmpty fsV [''a.mov''])) [''a.mov''] = Some (F [1, 2])"
proof -
  have o: "outputPath_of [''a.mov''] = [''a.webm'']"
    by code_simp
  have w: "snd (toolEmpty fsV [''a.mov''] [''a.webm'']) = Some []"
    by code_simp
  have t: "tool_output fsV [''a.webm''] (Some []) = fsV @ [([''a.webm''], F [])]"
    by code_simp
  have l: "lookup fsV [''a.mov''] = Some (F [1, 2])"
    by code_simp
  have h: "supported [''a.mov'']" "fileExists fsV [''a.mov'']"
    "\<not> fileExists fsV (outputPath_of [''a.mov''])"
    "fst (toolEmpty fsV [''a.mov''] (outputPath_of [''a.mov'']))"
    "lookup (tool_output fsV (outputPath_of [''a.mov''])
        (snd (toolEmpty fsV [''a.mov''] (outputPath_of [''a.mov'']))))
      (outputPath_of [''a.mov'']) = Some (F [])"
    "node_size (F []) = 0"
    by code_simp+
  show ?thesis
    using empty_output_is_failure [where p = "[''a.mov'']" and fs = fsV and ffmpeg = toolEmpty
        and n = "F []", OF h]
    unfolding o w t l .
qed


section \<open>Files with the same bytes\<close>

text \<open>
  C7. The claim is that of two files with the same bytes the first is copied and the
  second is skipped. The script does neither. On a source directory with \<open>x.mp4\<close> and
  \<open>y.mp4\<close> of the same bytes and an empty target directory, it reads \<open>x.mp4\<close> for the
  fingerprint and ends with \<open>BadResource\<close>, raised by \<open>file.close()\<close>: nothing is
  copied, and \<open>y.mp4\<close> is not met. This holds of every run: no run of the scan copies a
  file, and every run leaves the file system as it found it.
\<close>

theorem identical_files_are_not_deduplicated:
  "lookup fsD [''src'', ''x.mp4''] = lookup fsD [''src'', ''y.mp4'']
   \<and> file_copy_and_rename H1 2 fsD [''src''] [''out''] EXTENSIONS False =
       (Threw BadResource, fsD,
        [Stat [''out''] True, ReadDir [''src''], Log (Processing [''src'', ''x.mp4'']),
         Digest [''src'', ''x.mp4''] True, Close [''src'', ''x.mp4''] False])
   \<and> CopyFile s t ok \<notin> set (events (scanAndCopyFiles H n fs d td exts mv))
   \<and> fs_of (scanAndCopyFiles H n fs d td exts mv) = fs"
proof -
  have 1: "lookup fsD [''src'', ''x.mp4''] = lookup fsD [''src'', ''y.mp4'']"
    by code_simp
  have 2: "file_copy_and_rename H1 2 fsD [''src''] [''out''] EXTENSIONS False =
       (Threw BadResource, fsD,
        [Stat [''out''] True, ReadDir [''src''], Log (Processing [''src'', ''x.mp4'']),
         Digest [''src'', ''x.mp4''] True, Close [''src'', ''x.mp4''] False])"
    by code_simp
  have 3: "CopyFile s t ok \<notin> set (events (scanAndCopyFiles H n fs d td exts mv))"
    using copy_scan_quiet [of H n fs d td exts mv] by force
  have 4: "fs_of (scanAndCopyFiles H n fs d td exts mv) = fs"
    by (rule copy_scan_unchanged(1))
  from 1 2 3 4 show ?thesis
    by (intro conjI)
qed

section \<open>The target name of a file without extension\<close>



section \<open>Which files a rename run reads\<close>

text \<open>
  C9. \<open>copySingleFile\<close> starts with the read of the whole source for the fingerprint, before
  any check of the target. But the claim that every matching file is read on every run
  does not hold of the script: the call never ends normally, so the scan ends at the first
  matching file. On a source directory with \<open>x.mp4\<close> and \<open>y.webm\<close>, both matching, the
  run reads \<open>x.mp4\<close>, ends with \<open>BadResource\<close>, and \<open>y.webm\<close> is never read.
\<close>

theorem later_matching_files_are_not_read:
  "matching EXTENSIONS [''src'', ''x.mp4''] \<and> matching EXTENSIONS [''src'', ''y.webm'']
   \<and> scanAndCopyFiles H1 2 fsX [''src''] [''out''] EXTENSIONS False =
       (Threw BadResource, fsX,
        [ReadDir [''src''], Log (Processing [''src'', ''x.mp4'']),
         Digest [''src'', ''x.mp4''] True, Close [''src'', ''x.mp4''] False])
   \<and> Digest [''src'', ''y.webm''] True
        \<notin> set (events (scanAndCopyFiles H1 2 fsX [''src''] [''out''] EXTENSIONS False))
   \<and> (\<exists>rest. events (copySingleFile H fs src td mv) = Log (Processing src) # rest \<and>
         (rest = [Digest src False] \<or> rest = [Digest src True, Close src False]))
   \<and> status_of (copySingleFile H fs src td mv) \<noteq> Done"
proof -
  have 1: "matching EXTENSIONS [''src'', ''x.mp4'']" "matching EXTENSIONS [''src'', ''y.webm'']"
    by code_simp+
  have 2: "scanAndCopyFiles H1 2 fsX [''src''] [''out''] EXTENSIONS False =
       (Threw BadResource, fsX,
        [ReadDir [''src''], Log (Processing [''src'', ''x.mp4'']),
         Digest [''src'', ''x.mp4''] True, Close [''src'', ''x.mp4''] False])"
    by code_simp
  have 3: "Digest [''src'', ''y.webm''] True
        \<notin> set (events (scanAndCopyFiles H1 2 fsX [''src''] [''out''] EXTENSIONS False))"
    unfolding 2 by (simp add: events_def)
  have 4: "\<exists>rest. events (copySingleFile H fs src td mv) = Log (Processing src) # rest \<and>
         (rest = [Digest src False] \<or> rest = [Digest src True, Close src False])"
    using copySingleFile_events [of H fs src td mv] by auto
  have 5: "status_of (copySingleFile H fs src td mv) \<noteq> Done"
    by (rule copySingleFile_not_Done)
  from 1 2 3 4 5 show ?thesis
    by (intro conjI)
qed

section \<open>The archive run works on a snapshot\<close>

text \<open>
  C10. In the archive variant the listing of the directory is read once, before any item
  is processed, and the loop runs over the items collected from it. In a file system where
  a path names one node, once an effect of the run has written an artifact, no later
  effect of the same run compresses or removes that artifact.
\<close>

theorem archive_run_leaves_its_artifacts_alone:
  assumes "distinct (map fst fs)"
    and "readDir fs cwd = Some entries"
  shows "compress_and_delete z fs cwd =
           after [ReadDir cwd] (processItems z cwd fs (collectItems entries))
       \<and> (\<forall>pre e post out.
            events (compress_and_delete z fs cwd) = pre @ e # post \<and>
            artifact_of e = Some out \<longrightarrow>
            (\<forall>e' \<in> set post. item_of e' \<noteq> Some out))"
proof (intro conjI allI impI)
  show c: "compress_and_delete z fs cwd =
      after [ReadDir cwd] (processItems z cwd fs (collectItems entries))"
    using assms(2) by (simp add: compress_and_delete_def)
  fix pre e post out
  assume a: "events (compress_and_delete z fs cwd) = pre @ e # post \<and> artifact_of e = Some out"
  let ?items = "collectItems entries"
  have d: "distinct (map fst ?items)"
    using readDir_names_distinct [OF assms] by (simp add: collectItems_def distinct_map_filter)
  have x: "\<forall>n \<in> fst ` set ?items. fileExists fs (join cwd n)"
    using readDir_entries_exist [OF assms(2)] by (auto simp: collectItems_def)
  from a have ev: "[ReadDir cwd] @ events (processItems z cwd fs ?items) = pre @ e # post"
    and art: "artifact_of e = Some out"
    by (simp_all add: c)
  from art have "e \<noteq> ReadDir cwd" by (auto simp: artifact_of_def)
  with ev obtain pre' where "events (processItems z cwd fs ?items) = pre' @ e # post"
    by (cases pre) auto
  from processItems_clean [OF d x this art]
  show "\<forall>e' \<in> set post. item_of e' \<noteq> Some out" .
qed


theorem archive_run_leaves_its_artifacts_alone_witness:
  "compress_and_delete toolOk fsT [] =
     after [ReadDir []] (processItems toolOk [] fsT [(''a.7z'', False), (''a'', False)])
   \<and> events (compress_and_delete toolOk fsT []) =
       [ReadDir [], Stat [''a.7z.7z''] False, Log (Compressing [''a.7z''] [''a.7z.7z'']),
        Spawn ''7z'' (sevenZip_args [''a.7z''] [''a.7z.7z'']) True,
        Log (CompressOk [''a.7z.7z'']), Log (Deleting [''a.7z'']),
        Remove [''a.7z''] False True, Log (Deleted [''a.7z'']),
        Stat [''a.7z''] False, Log (Compressing [''a''] [''a.7z''])]
       @ Spawn ''7z'' (sevenZip_args [''a''] [''a.7z'']) True
       # [Log (CompressOk [''a.7z'']), Log (Deleting [''a'']), Remove [''a''] False True,
          Log (Deleted [''a''])]
   \<and> artifact_of (Spawn ''7z'' (sevenZip_args [''a''] [''a.7z'']) True) = Some [''a.7z'']
   \<and> Some [''a.7z''] \<notin> set (map item_of
         [Log (CompressOk [''a.7z'']), Log (Deleting [''a'']), Remove [''a''] False True,
          Log (Deleted [''a''])])"
proof -
  have d: "distinct (map fst fsT)"
    by code_simp
  have r: "readDir fsT [] =
      Some [(''a.7z'', False), (''a'', False), (''.git'', True), (''run.ts'', False)]"
    by code_simp
  have c: "collectItems [(''a.7z'', False), (''a'', False), (''.git'', True), (''run.ts'', False)] =
      [(''a.7z'', False), (''a'', False)]"
    by code_simp
  have ev: "events (compress_and_delete toolOk fsT []) =
       [ReadDir [], Stat [''a.7z.7z''] False, Log (Compressing [''a.7z''] [''a.7z.7z'']),
        Spawn ''7z'' (sevenZip_args [''a.7z''] [''a.7z.7z'']) True,
        Log (CompressOk [''a.7z.7z'']), Log (Deleting [''a.7z'']),
        Remove [''a.7z''] False True, Log (Deleted [''a.7z'']),
        Stat [''a.7z''] False, Log (Compressing [''a''] [''a.7z''])]
       @ Spawn ''7z'' (sevenZip_args [''a''] [''a.7z'']) True
       # [Log (CompressOk [''a.7z'']), Log (Deleting [''a'']), Remove [''a''] False True,
          Log (Deleted [''a''])]"
    by code_simp
  have art: "artifact_of (Spawn ''7z'' (sevenZip_args [''a''] [''a.7z'']) True) = Some [''a.7z'']"
    by code_simp
  note t = archive_run_leaves_its_artifacts_alone [where z = toolOk, OF d r]
  have 1: "compress_and_delete toolOk fsT [] =
     after [ReadDir []] (processItems toolOk [] fsT [(''a.7z'', False), (''a'', False)])"
    using t [THEN conjunct1] unfolding c .
  have "\<forall>e' \<in> set [Log (CompressOk [''a.7z'']), Log (Deleting [''a'']),
      Remove [''a''] False True, Log (Deleted [''a''])]. item_of e' \<noteq> Some [''a.7z'']"
    using t [THEN conjunct2, rule_format, OF conjI [OF ev art]] by blast
  then have 2: "Some [''a.7z''] \<notin> set (map item_of
         [Log (CompressOk [''a.7z'']), Log (Deleting [''a'']), Remove [''a''] False True,
          Log (Deleted [''a''])])"
    by auto
  from 1 ev art 2 show ?thesis
    by (intro conjI)
qed

end
